theory Spec2Isabelle
  imports Main "HOL-Library.Word"
begin

unbundle bit_operations_syntax

section \<open>Conventions of the embedding\<close>

text \<open>
  The theory embeds \<^verbatim>\<open>src/args.c\<close>, the argument-parsing library.

  \<^item> A C string is a \<open>string\<close> (a list of bytes without the terminating NUL); a
    \<open>char *\<close> that may be \<open>NULL\<close> is a \<open>string option\<close>.
  \<^item> A function of the library returns \<open>'a option\<close> where it contains a loop that the
    C text does not bound, or a read through a pointer that may be invalid: \<open>None\<close>
    stands for "the call does not return" (the probe loop spins, or the process
    crashes on the bad read).
  \<^item> \<open>exit\<close> is an \<open>outcome\<close>: \<open>Fatal msg\<close> for \<open>err(msg)\<close> (message on stderr, status
    1), \<open>Exits txt\<close> for the help and version paths (optional text on stdout, status
    0), \<open>Returns x\<close> for a normal return.
  \<^item> Heap objects reached through pointers that the parser stores (the \<open>Option\<close>s and
    the child parsers) live in a list owned by the parser; a pointer is the index
    of the object in that list, and \<open>malloc\<close> appends.
  \<^item> The \<open>int\<close> counters (\<open>count\<close>, \<open>capacity\<close>, stream index) are mathematical
    integers: the embedding describes the runs in which none of them leaves the
    range of \<open>int\<close>, and in which \<open>malloc\<close> succeeds.
\<close>

datatype 'a outcome = Returns 'a | Fatal string | Exits "string option"

text \<open>\<^verbatim>\<open>err\<close>: prints the message to stderr and exits with status 1.\<close>

definition err :: "string \<Rightarrow> 'a outcome" where
  "err msg = Fatal msg"

text \<open>Sequencing of two steps of which the first may leave the process.\<close>

definition and_then :: "'a outcome option \<Rightarrow> ('a \<Rightarrow> 'b outcome option) \<Rightarrow> 'b outcome option" where
  "and_then x f =
     Option.bind x (\<lambda>r. case r of
        Returns a \<Rightarrow> f a
      | Fatal e \<Rightarrow> Some (Fatal e)
      | Exits t \<Rightarrow> Some (Exits t))"

section \<open>Utility functions\<close>

text \<open>\<^verbatim>\<open>str_hash\<close>: FNV-1a on \<open>uint32_t\<close>; the multiplication wraps.\<close>

definition str_hash :: "string \<Rightarrow> 32 word" where
  "str_hash string =
     foldl (\<lambda>hash c. (hash XOR of_char c) * 16777619) 2166136261 string"

text \<open>
  \<^verbatim>\<open>isspace\<close> and \<^verbatim>\<open>isdigit\<close> of the C library in the "C" locale, on the byte value of
  the character.
\<close>

definition isspace :: "char \<Rightarrow> bool" where
  "isspace c \<longleftrightarrow> (of_char c :: nat) = 32 \<or> (9 \<le> (of_char c :: nat) \<and> (of_char c :: nat) \<le> 13)"

definition isdigit :: "char \<Rightarrow> bool" where
  "isdigit c \<longleftrightarrow> 48 \<le> (of_char c :: nat) \<and> (of_char c :: nat) \<le> 57"

text \<open>
  The value of a character as a digit of \<^verbatim>\<open>strtol\<close>: \<open>0-9\<close>, then letters of either
  case from 10 on.
\<close>

definition digit_value :: "char \<Rightarrow> nat option" where
  "digit_value c =
     (let n = (of_char c :: nat) in
      if 48 \<le> n \<and> n \<le> 57 then Some (n - 48)
      else if 97 \<le> n \<and> n \<le> 122 then Some (n - 87)
      else if 65 \<le> n \<and> n \<le> 90 then Some (n - 55)
      else None)"

definition is_digit_in :: "nat \<Rightarrow> char \<Rightarrow> bool" where
  "is_digit_in base c = (case digit_value c of None \<Rightarrow> False | Some d \<Rightarrow> d < base)"

definition digits_value :: "nat \<Rightarrow> string \<Rightarrow> int" where
  "digits_value base ds =
     foldl (\<lambda>acc c. acc * int base + int (the (digit_value c))) 0 ds"

text \<open>
  \<^verbatim>\<open>strtol(string, &endptr, 0)\<close> as the C standard specifies it: white space is skipped,
  a sign is optional, the base is 16 after \<open>0x\<close> or \<open>0X\<close> followed by a hexadecimal
  digit, 8 after a leading \<open>0\<close>, 10 otherwise; the longest run of digits of the base
  is converted and \<open>endptr\<close> is what follows it. Without any digit the value is 0 and
  \<open>endptr\<close> is the whole string. The result is the mathematical value and the rest;
  clamping to \<open>long\<close> with \<open>ERANGE\<close> is left to the caller's range test.
\<close>

definition strtol0 :: "string \<Rightarrow> int \<times> string" where
  "strtol0 string =
     (let s1 = dropWhile isspace string;
          negative = (s1 \<noteq> [] \<and> hd s1 = CHR ''-'');
          s2 = (if s1 \<noteq> [] \<and> (hd s1 = CHR ''-'' \<or> hd s1 = CHR ''+'') then tl s1 else s1);
          hex = (length s2 \<ge> 3 \<and> hd s2 = CHR ''0''
                 \<and> (s2 ! 1 = CHR ''x'' \<or> s2 ! 1 = CHR ''X'') \<and> is_digit_in 16 (s2 ! 2));
          base = (if hex then 16 else if s2 \<noteq> [] \<and> hd s2 = CHR ''0'' then 8 else 10);
          s3 = (if hex then drop 2 s2 else s2);
          ds = takeWhile (is_digit_in base) s3;
          rest = dropWhile (is_digit_in base) s3
      in if ds = [] then (0, string)
         else (if negative then - digits_value base ds else digits_value base ds, rest))"

text \<open>The single quote of the messages.\<close>

definition squote :: string where
  "squote = [CHR 0x27]"

definition INT_MAX :: int where
  "INT_MAX = 2147483647"

definition INT_MIN :: int where
  "INT_MIN = - 2147483648"

text \<open>
  \<^verbatim>\<open>try_str_to_int\<close>. The test \<^verbatim>\<open>errno == ERANGE || result > INT_MAX || result < INT_MIN\<close>
  holds exactly when the mathematical value is outside the range of \<open>int\<close>, whatever
  the width of \<open>long\<close>.
\<close>

definition try_str_to_int :: "string \<Rightarrow> int outcome" where
  "try_str_to_int string =
     (let (result, endptr) = strtol0 string in
      if result > INT_MAX \<or> result < INT_MIN
      then err (squote @ string @ squote @ '' is out of range'')
      else if endptr \<noteq> []
      then err (''cannot parse '' @ squote @ string @ squote @ '' as an integer'')
      else Returns result)"

text \<open>
  \<^verbatim>\<open>try_str_to_double\<close>. Floating point is not modelled: the type \<open>'d\<close> of doubles and
  the library's \<^verbatim>\<open>strtod\<close> are parameters; \<open>strtod s\<close> gives the value, the rest of the
  string at \<open>endptr\<close>, and whether \<open>errno\<close> is \<open>ERANGE\<close>.
\<close>

definition try_str_to_double :: "(string \<Rightarrow> 'd \<times> string \<times> bool) \<Rightarrow> string \<Rightarrow> 'd outcome" where
  "try_str_to_double strtod string =
     (let (result, endptr, erange) = strtod string in
      if erange
      then err (squote @ string @ squote @ '' is out of range'')
      else if endptr \<noteq> []
      then err (''cannot parse '' @ squote @ string @ squote @ '' as a floating-point value'')
      else Returns result)"

section \<open>Vec: a dynamic array of pointers\<close>

text \<open>
  \<open>entries_vec\<close> is the initialised prefix of the buffer; the write
  \<^verbatim>\<open>entries[count] = entry\<close> behind it is an append.
\<close>

record 'a Vec =
  count_vec :: int
  capacity_vec :: int
  entries_vec :: "'a list"

definition vec_new :: "'a Vec" where
  "vec_new = \<lparr>count_vec = 0, capacity_vec = 0, entries_vec = []\<rparr>"

definition vec_add :: "'a Vec \<Rightarrow> 'a \<Rightarrow> 'a Vec" where
  "vec_add vec entry =
     (let vec = (if count_vec vec + 1 > capacity_vec vec
                 then vec\<lparr>capacity_vec :=
                        (if capacity_vec vec < 8 then 8 else capacity_vec vec * 2)\<rparr>
                 else vec)
      in vec\<lparr>entries_vec := entries_vec vec @ [entry], count_vec := count_vec vec + 1\<rparr>)"

section \<open>Map: a linear-probing hash map with string keys\<close>

record 'v MapEntry =
  key :: string
  val :: 'v
  key_hash :: "32 word"

text \<open>A slot whose \<open>key\<close> is \<open>NULL\<close> is \<open>None\<close>; its other fields are never read.\<close>

record 'v Map =
  count_map :: int
  capacity_map :: int
  max_load_threshold :: int
  entries_map :: "'v MapEntry option list"

definition map_new :: "'v Map" where
  "map_new = \<lparr>count_map = 0, capacity_map = 0, max_load_threshold = 0, entries_map = []\<rparr>"

text \<open>
  The \<^verbatim>\<open>for (;;)\<close> of \<^verbatim>\<open>map_find\<close>, from a given index. The result is the index of the
  slot whose address the C function returns.
\<close>

partial_function (option) map_find_loop ::
  "'v Map \<Rightarrow> string \<Rightarrow> 32 word \<Rightarrow> nat \<Rightarrow> nat option" where
  "map_find_loop m k h index =
     (if index < length (entries_map m) then
        (case entries_map m ! index of
           None \<Rightarrow> Some index
         | Some entry \<Rightarrow>
             if h = key_hash entry \<and> k = key entry then Some index
             else map_find_loop m k h (nat ((int index + 1) AND (capacity_map m - 1))))
      else None)"

declare map_find_loop.simps [code]

definition map_find :: "'v Map \<Rightarrow> string \<Rightarrow> 32 word \<Rightarrow> nat option" where
  "map_find m k h = map_find_loop m k h (nat (uint h AND (capacity_map m - 1)))"

text \<open>The second loop of \<^verbatim>\<open>map_grow\<close>: every live entry is moved to the new table.\<close>

fun map_rehash :: "'v Map \<Rightarrow> 'v MapEntry option list \<Rightarrow> 'v Map option" where
  "map_rehash m [] = Some m"
| "map_rehash m (None # old_entries) = map_rehash m old_entries"
| "map_rehash m (Some src # old_entries) =
     Option.bind (map_find m (key src) (key_hash src)) (\<lambda>dst.
       map_rehash
         (m\<lparr>entries_map := (entries_map m)[dst := Some src], count_map := count_map m + 1\<rparr>)
         old_entries)"

text \<open>
  \<^verbatim>\<open>map_grow\<close>. \<^verbatim>\<open>new_capacity * MAP_MAX_LOAD\<close> is the product with 0.5 truncated to
  \<open>int\<close>: the half, rounded down.
\<close>

definition map_grow :: "'v Map \<Rightarrow> 'v Map option" where
  "map_grow m =
     (let old_entries = entries_map m;
          old_capacity = capacity_map m;
          new_capacity = (if old_capacity < 8 then 8 else old_capacity * 2);
          new_entries = replicate (nat new_capacity) None
      in map_rehash
           \<lparr>count_map = 0, capacity_map = new_capacity,
            max_load_threshold = new_capacity div 2, entries_map = new_entries\<rparr>
           (take (nat old_capacity) old_entries))"

text \<open>\<^verbatim>\<open>map_get\<close>: the inner \<open>None\<close> is \<open>false\<close>, \<open>Some v\<close> is \<open>true\<close> with \<open>*value = v\<close>.\<close>

definition map_get :: "'v Map \<Rightarrow> string \<Rightarrow> 'v option option" where
  "map_get m k =
     (if count_map m = 0 then Some None
      else Option.bind (map_find m k (str_hash k)) (\<lambda>entry.
             case entries_map m ! entry of
               None \<Rightarrow> Some None
             | Some e \<Rightarrow> Some (Some (val e))))"

definition map_set :: "'v Map \<Rightarrow> string \<Rightarrow> 'v \<Rightarrow> 'v Map option" where
  "map_set m k v =
     Option.bind (if count_map m = max_load_threshold m then map_grow m else Some m) (\<lambda>m.
       let key_hash = str_hash k in
       Option.bind (map_find m k key_hash) (\<lambda>entry.
         case entries_map m ! entry of
           None \<Rightarrow>
             Some (m\<lparr>count_map := count_map m + 1,
                     entries_map := (entries_map m)
                       [entry := Some \<lparr>key = k, val = v, key_hash = key_hash\<rparr>]\<rparr>)
         | Some e \<Rightarrow>
             Some (m\<lparr>entries_map := (entries_map m)[entry := Some (e\<lparr>val := v\<rparr>)]\<rparr>)))"

text \<open>
  \<^verbatim>\<open>strtok_r\<close> with the delimiter \<open>" "\<close>, called until it returns \<open>NULL\<close>: the maximal
  runs of characters other than the space, in order.
\<close>

function strtok_all :: "string \<Rightarrow> string list" where
  "strtok_all s =
     (let s1 = dropWhile (\<lambda>c. c = CHR '' '') s in
      if s1 = [] then []
      else takeWhile (\<lambda>c. c \<noteq> CHR '' '') s1 # strtok_all (dropWhile (\<lambda>c. c \<noteq> CHR '' '') s1))"
  by pat_completeness auto
termination
proof (relation "measure length")
  show "wf (measure length)" by simp
next
  fix s s1 :: string
  assume s1: "s1 = dropWhile (\<lambda>c. c = CHR '' '') s" and ne: "s1 \<noteq> []"
  from ne obtain c cs where cs: "s1 = c # cs" by (cases s1) auto
  have "c \<noteq> CHR '' ''"
    using hd_dropWhile [of "\<lambda>c. c = CHR '' ''" s] s1 cs by (metis list.sel(1) list.distinct(1))
  then have "dropWhile (\<lambda>c. c \<noteq> CHR '' '') s1 = dropWhile (\<lambda>c. c \<noteq> CHR '' '') cs"
    using cs by simp
  then have "length (dropWhile (\<lambda>c. c \<noteq> CHR '' '') s1) \<le> length cs"
    by (simp add: length_dropWhile_le)
  moreover have "length s1 \<le> length s"
    unfolding s1 by (rule length_dropWhile_le)
  ultimately show "(dropWhile (\<lambda>c. c \<noteq> CHR '' '') s1, s) \<in> measure length"
    using cs by simp
qed

declare strtok_all.simps [simp del]

text \<open>The \<^verbatim>\<open>while (key != NULL)\<close> loop of \<^verbatim>\<open>map_set_splitkey\<close> over the tokens.\<close>

fun map_set_keys :: "'v Map \<Rightarrow> string list \<Rightarrow> 'v \<Rightarrow> 'v Map option" where
  "map_set_keys m [] v = Some m"
| "map_set_keys m (k # ks) v = Option.bind (map_set m k v) (\<lambda>m. map_set_keys m ks v)"

definition map_set_splitkey :: "'v Map \<Rightarrow> string \<Rightarrow> 'v \<Rightarrow> 'v Map option" where
  "map_set_splitkey m keys v = map_set_keys m (strtok_all keys) v"

section \<open>Options\<close>

datatype OptionType = OPT_FLAG | OPT_STR | OPT_INT | OPT_DBL

text \<open>
  The union \<^verbatim>\<open>OptionValue\<close>, tagged by the member that was written last; \<open>Uninit\<close> is
  memory that was never written. Reading a member gives \<open>None\<close> when another member
  (or nothing) was written: the C value is then indeterminate.
\<close>

datatype 'd OptionValue = Uninit | Str_val "string option" | Int_val int | Dbl_val 'd

fun str_val :: "'d OptionValue \<Rightarrow> string option option" where
  "str_val (Str_val s) = Some s"
| "str_val _ = None"

fun int_val :: "'d OptionValue \<Rightarrow> int option" where
  "int_val (Int_val i) = Some i"
| "int_val _ = None"

fun dbl_val :: "'d OptionValue \<Rightarrow> 'd option" where
  "dbl_val (Dbl_val d) = Some d"
| "dbl_val _ = None"

text \<open>\<open>values_opt\<close> is the initialised prefix of the buffer \<^verbatim>\<open>values\<close>.\<close>

record 'd Option =
  type_opt :: OptionType
  count_opt :: int
  capacity_opt :: int
  values_opt :: "'d OptionValue list"
  fallback :: "'d OptionValue"

definition option_append_value :: "'d Option \<Rightarrow> 'd OptionValue \<Rightarrow> 'd Option" where
  "option_append_value opt v =
     (let opt = (if count_opt opt + 1 > capacity_opt opt
                 then opt\<lparr>capacity_opt :=
                        (if capacity_opt opt < 4 then 4 else capacity_opt opt * 2)\<rparr>
                 else opt)
      in opt\<lparr>values_opt := values_opt opt @ [v], count_opt := count_opt opt + 1\<rparr>)"

definition option_try_set ::
  "(string \<Rightarrow> 'd \<times> string \<times> bool) \<Rightarrow> 'd Option \<Rightarrow> string \<Rightarrow> 'd Option outcome" where
  "option_try_set strtod opt arg =
     (if type_opt opt = OPT_STR then Returns (option_append_value opt (Str_val (Some arg)))
      else if type_opt opt = OPT_INT then
        (case try_str_to_int arg of
           Returns v \<Rightarrow> Returns (option_append_value opt (Int_val v))
         | Fatal e \<Rightarrow> Fatal e
         | Exits t \<Rightarrow> Exits t)
      else if type_opt opt = OPT_DBL then
        (case try_str_to_double strtod arg of
           Returns v \<Rightarrow> Returns (option_append_value opt (Dbl_val v))
         | Fatal e \<Rightarrow> Fatal e
         | Exits t \<Rightarrow> Exits t)
      else Returns opt)"

text \<open>
  \<^verbatim>\<open>option_new\<close> followed by the assignments of each constructor; what neither
  writes (the fallback of a flag) is \<open>Uninit\<close>.
\<close>

definition option_new_flag :: "'d Option" where
  "option_new_flag =
     \<lparr>type_opt = OPT_FLAG, count_opt = 0, capacity_opt = 0, values_opt = [], fallback = Uninit\<rparr>"

definition option_new_str :: "string option \<Rightarrow> 'd Option" where
  "option_new_str fb =
     \<lparr>type_opt = OPT_STR, count_opt = 0, capacity_opt = 0, values_opt = [], fallback = Str_val fb\<rparr>"

definition option_new_int :: "int \<Rightarrow> 'd Option" where
  "option_new_int fb =
     \<lparr>type_opt = OPT_INT, count_opt = 0, capacity_opt = 0, values_opt = [], fallback = Int_val fb\<rparr>"

definition option_new_double :: "'d \<Rightarrow> 'd Option" where
  "option_new_double fb =
     \<lparr>type_opt = OPT_DBL, count_opt = 0, capacity_opt = 0, values_opt = [], fallback = Dbl_val fb\<rparr>"

text \<open>The read \<^verbatim>\<open>opt->values[i]\<close>; outside the written prefix the process has no value.\<close>

definition values_at :: "'d Option \<Rightarrow> int \<Rightarrow> 'd OptionValue option" where
  "values_at opt i =
     (if 0 \<le> i \<and> nat i < length (values_opt opt) then Some (values_opt opt ! nat i) else None)"

definition option_get_str :: "'d Option \<Rightarrow> string option option" where
  "option_get_str opt =
     (if count_opt opt > 0 then Option.bind (values_at opt (count_opt opt - 1)) str_val
      else str_val (fallback opt))"

definition option_get_int :: "'d Option \<Rightarrow> int option" where
  "option_get_int opt =
     (if count_opt opt > 0 then Option.bind (values_at opt (count_opt opt - 1)) int_val
      else int_val (fallback opt))"

definition option_get_double :: "'d Option \<Rightarrow> 'd option" where
  "option_get_double opt =
     (if count_opt opt > 0 then Option.bind (values_at opt (count_opt opt - 1)) dbl_val
      else dbl_val (fallback opt))"

text \<open>
  The copying loop of the list accessors: the members \<open>rd\<close> of \<^verbatim>\<open>values[i]\<close> for \<open>i\<close>
  from \<open>i\<close> up to \<open>count\<close>, \<open>n\<close> being the number of indices left.
\<close>

fun copy_values ::
  "('d OptionValue \<Rightarrow> 'a option) \<Rightarrow> 'd Option \<Rightarrow> int \<Rightarrow> nat \<Rightarrow> 'a list option" where
  "copy_values rd opt i 0 = Some []"
| "copy_values rd opt i (Suc n) =
     Option.bind (values_at opt i) (\<lambda>v.
       Option.bind (rd v) (\<lambda>x.
         Option.bind (copy_values rd opt (i + 1) n) (\<lambda>xs. Some (x # xs))))"

text \<open>The list accessors: the inner \<open>None\<close> is the \<open>NULL\<close> returned for no occurrence.\<close>

definition option_get_str_list :: "'d Option \<Rightarrow> string option list option option" where
  "option_get_str_list opt =
     (if count_opt opt = 0 then Some None
      else map_option Some (copy_values str_val opt 0 (nat (count_opt opt))))"

definition option_get_int_list :: "'d Option \<Rightarrow> int list option option" where
  "option_get_int_list opt =
     (if count_opt opt = 0 then Some None
      else map_option Some (copy_values int_val opt 0 (nat (count_opt opt))))"

definition option_get_double_list :: "'d Option \<Rightarrow> 'd list option option" where
  "option_get_double_list opt =
     (if count_opt opt = 0 then Some None
      else map_option Some (copy_values dbl_val opt 0 (nat (count_opt opt))))"

section \<open>ArgStream: a wrapper for an array of string pointers\<close>

record ArgStream =
  count_stream :: int
  index_stream :: int
  args :: "string list"

definition argstream_new :: "int \<Rightarrow> string list \<Rightarrow> ArgStream" where
  "argstream_new n a = \<lparr>count_stream = n, index_stream = 0, args = a\<rparr>"

text \<open>\<^verbatim>\<open>args[index++]\<close>; a read outside the array has no value.\<close>

definition argstream_next :: "ArgStream \<Rightarrow> (string \<times> ArgStream) option" where
  "argstream_next stream =
     (if 0 \<le> index_stream stream \<and> nat (index_stream stream) < length (args stream)
      then Some (args stream ! nat (index_stream stream),
                 stream\<lparr>index_stream := index_stream stream + 1\<rparr>)
      else None)"

definition argstream_has_next :: "ArgStream \<Rightarrow> bool" where
  "argstream_has_next stream \<longleftrightarrow> index_stream stream < count_stream stream"

section \<open>ArgParser: setup\<close>

text \<open>
  \<^verbatim>\<open>struct ArgParser\<close>. \<open>option_heap\<close> holds the \<open>Option\<close> objects that the entries of
  \<open>option_vec\<close> and the values of \<open>option_map\<close> point to. The child parsers that
  \<open>command_vec\<close>, \<open>command_map\<close> and \<open>cmd_parser\<close> point to are the \<open>command_heap\<close> of
  the node. A callback is the address of a function of the host.
\<close>

record 'd ArgParser_struct =
  helptext :: "string option"
  version :: "string option"
  option_vec :: "nat Vec"
  option_map :: "nat Map"
  option_heap :: "'d Option list"
  command_vec :: "nat Vec"
  command_map :: "nat Map"
  positional_args :: "string Vec"
  callback :: "nat option"
  cmd_name :: "string option"
  cmd_parser :: "nat option"
  cmd_help :: bool

datatype 'd ArgParser =
  ArgParser (fields: "'d ArgParser_struct") (command_heap: "'d ArgParser list")

text \<open>An assignment to fields of \<^verbatim>\<open>*parser\<close>.\<close>

definition assign :: "('d ArgParser_struct \<Rightarrow> 'd ArgParser_struct) \<Rightarrow> 'd ArgParser \<Rightarrow> 'd ArgParser" where
  "assign f parser = ArgParser (f (fields parser)) (command_heap parser)"

definition ap_new :: "'d ArgParser" where
  "ap_new =
     ArgParser
       \<lparr>helptext = None, version = None, option_vec = vec_new, option_map = map_new,
        option_heap = [], command_vec = vec_new, command_map = map_new,
        positional_args = vec_new, callback = None, cmd_name = None, cmd_parser = None,
        cmd_help = False\<rparr>
       []"

definition ap_helptext :: "'d ArgParser \<Rightarrow> string option \<Rightarrow> 'd ArgParser" where
  "ap_helptext parser text = assign (\<lambda>d. d\<lparr>helptext := text\<rparr>) parser"

definition ap_version :: "'d ArgParser \<Rightarrow> string option \<Rightarrow> 'd ArgParser" where
  "ap_version parser text = assign (\<lambda>d. d\<lparr>version := text\<rparr>) parser"

section \<open>ArgParser: register flags and options\<close>

text \<open>
  The common body of the four registration functions, after the \<open>Option\<close> was
  built: the object is allocated at the end of the heap, its address goes to
  \<open>option_vec\<close> and under every word of \<open>name\<close> to \<open>option_map\<close>.
\<close>

definition register_opt :: "'d ArgParser \<Rightarrow> string \<Rightarrow> 'd Option \<Rightarrow> 'd ArgParser option" where
  "register_opt parser name opt =
     (let d = fields parser; ptr = length (option_heap d) in
      Option.bind (map_set_splitkey (option_map d) name ptr) (\<lambda>m.
        Some (assign (\<lambda>d. d\<lparr>option_heap := option_heap d @ [opt],
                              option_vec := vec_add (option_vec d) ptr,
                              option_map := m\<rparr>) parser)))"

definition ap_flag :: "'d ArgParser \<Rightarrow> string \<Rightarrow> 'd ArgParser option" where
  "ap_flag parser name = register_opt parser name option_new_flag"

definition ap_str_opt :: "'d ArgParser \<Rightarrow> string \<Rightarrow> string option \<Rightarrow> 'd ArgParser option" where
  "ap_str_opt parser name fb = register_opt parser name (option_new_str fb)"

definition ap_int_opt :: "'d ArgParser \<Rightarrow> string \<Rightarrow> int \<Rightarrow> 'd ArgParser option" where
  "ap_int_opt parser name fb = register_opt parser name (option_new_int fb)"

definition ap_dbl_opt :: "'d ArgParser \<Rightarrow> string \<Rightarrow> 'd \<Rightarrow> 'd ArgParser option" where
  "ap_dbl_opt parser name fb = register_opt parser name (option_new_double fb)"

section \<open>ArgParser: flag and option values\<close>

text \<open>The object behind an \<^verbatim>\<open>Option *\<close>.\<close>

definition deref_opt :: "'d ArgParser \<Rightarrow> nat \<Rightarrow> 'd Option option" where
  "deref_opt parser ptr =
     (if ptr < length (option_heap (fields parser))
      then Some (option_heap (fields parser) ! ptr) else None)"

definition ap_get_opt :: "'d ArgParser \<Rightarrow> string \<Rightarrow> 'd Option outcome option" where
  "ap_get_opt parser name =
     Option.bind (map_get (option_map (fields parser)) name) (\<lambda>found.
       case found of
         None \<Rightarrow> Some (err (squote @ name @ squote @ '' is not a registered flag or option name''))
       | Some ptr \<Rightarrow> map_option Returns (deref_opt parser ptr))"

definition ap_count :: "'d ArgParser \<Rightarrow> string \<Rightarrow> int outcome option" where
  "ap_count parser name =
     and_then (ap_get_opt parser name) (\<lambda>opt. Some (Returns (count_opt opt)))"

definition ap_found :: "'d ArgParser \<Rightarrow> string \<Rightarrow> bool outcome option" where
  "ap_found parser name =
     and_then (ap_get_opt parser name) (\<lambda>opt. Some (Returns (count_opt opt > 0)))"

definition ap_str_value :: "'d ArgParser \<Rightarrow> string \<Rightarrow> string option outcome option" where
  "ap_str_value parser name =
     and_then (ap_get_opt parser name) (\<lambda>opt. map_option Returns (option_get_str opt))"

definition ap_int_value :: "'d ArgParser \<Rightarrow> string \<Rightarrow> int outcome option" where
  "ap_int_value parser name =
     and_then (ap_get_opt parser name) (\<lambda>opt. map_option Returns (option_get_int opt))"

definition ap_dbl_value :: "'d ArgParser \<Rightarrow> string \<Rightarrow> 'd outcome option" where
  "ap_dbl_value parser name =
     and_then (ap_get_opt parser name) (\<lambda>opt. map_option Returns (option_get_double opt))"

definition ap_str_values :: "'d ArgParser \<Rightarrow> string \<Rightarrow> string option list option outcome option" where
  "ap_str_values parser name =
     and_then (ap_get_opt parser name) (\<lambda>opt. map_option Returns (option_get_str_list opt))"

definition ap_int_values :: "'d ArgParser \<Rightarrow> string \<Rightarrow> int list option outcome option" where
  "ap_int_values parser name =
     and_then (ap_get_opt parser name) (\<lambda>opt. map_option Returns (option_get_int_list opt))"

definition ap_dbl_values :: "'d ArgParser \<Rightarrow> string \<Rightarrow> 'd list option outcome option" where
  "ap_dbl_values parser name =
     and_then (ap_get_opt parser name) (\<lambda>opt. map_option Returns (option_get_double_list opt))"

section \<open>ArgParser: positional arguments\<close>

definition ap_has_args :: "'d ArgParser \<Rightarrow> bool" where
  "ap_has_args parser \<longleftrightarrow> count_vec (positional_args (fields parser)) > 0"

definition ap_count_args :: "'d ArgParser \<Rightarrow> int" where
  "ap_count_args parser = count_vec (positional_args (fields parser))"

definition ap_arg :: "'d ArgParser \<Rightarrow> int \<Rightarrow> string option" where
  "ap_arg parser i =
     (let es = entries_vec (positional_args (fields parser)) in
      if 0 \<le> i \<and> nat i < length es then Some (es ! nat i) else None)"

definition ap_args :: "'d ArgParser \<Rightarrow> string list option" where
  "ap_args parser =
     (let n = ap_count_args parser; es = entries_vec (positional_args (fields parser)) in
      if nat n \<le> length es then Some (take (nat n) es) else None)"

section \<open>ArgParser: commands\<close>

definition ap_cmd :: "'d ArgParser \<Rightarrow> string \<Rightarrow> ('d ArgParser \<times> nat) option" where
  "ap_cmd parser name =
     (let cmd_parser = length (command_heap parser) in
      Option.bind (map_set_splitkey (command_map (fields parser)) name cmd_parser) (\<lambda>m.
        Some (ArgParser
                ((fields parser)\<lparr>cmd_help := True,
                                 command_vec := vec_add (command_vec (fields parser)) cmd_parser,
                                 command_map := m\<rparr>)
                (command_heap parser @ [ap_new]),
              cmd_parser)))"

definition ap_callback :: "'d ArgParser \<Rightarrow> nat option \<Rightarrow> 'd ArgParser" where
  "ap_callback parser cb = assign (\<lambda>d. d\<lparr>callback := cb\<rparr>) parser"

definition ap_has_cmd :: "'d ArgParser \<Rightarrow> bool" where
  "ap_has_cmd parser \<longleftrightarrow> cmd_name (fields parser) \<noteq> None"

definition ap_cmd_name :: "'d ArgParser \<Rightarrow> string option" where
  "ap_cmd_name parser = cmd_name (fields parser)"

definition ap_cmd_parser :: "'d ArgParser \<Rightarrow> nat option" where
  "ap_cmd_parser parser = cmd_parser (fields parser)"

definition ap_cmd_help :: "'d ArgParser \<Rightarrow> bool \<Rightarrow> 'd ArgParser" where
  "ap_cmd_help parser enable = assign (\<lambda>d. d\<lparr>cmd_help := enable\<rparr>) parser"

text \<open>The object behind an \<^verbatim>\<open>ArgParser *\<close> that points to a child, and the write to it.\<close>

definition deref_cmd :: "'d ArgParser \<Rightarrow> nat \<Rightarrow> 'd ArgParser option" where
  "deref_cmd parser ptr =
     (if ptr < length (command_heap parser) then Some (command_heap parser ! ptr) else None)"

definition store_cmd :: "'d ArgParser \<Rightarrow> nat \<Rightarrow> 'd ArgParser \<Rightarrow> 'd ArgParser" where
  "store_cmd parser ptr child = ArgParser (fields parser) ((command_heap parser)[ptr := child])"

definition store_opt :: "'d ArgParser \<Rightarrow> nat \<Rightarrow> 'd Option \<Rightarrow> 'd ArgParser" where
  "store_opt parser ptr opt =
     assign (\<lambda>d. d\<lparr>option_heap := (option_heap d)[ptr := opt]\<rparr>) parser"

section \<open>ArgParser: parse arguments\<close>

text \<open>
  \<^verbatim>\<open>ap_handle_equals_opt\<close>. \<open>name\<close> is \<open>arg\<close> cut at its first \<open>=\<close>, \<open>value\<close> what follows
  that \<open>=\<close>; without a \<open>=\<close> in \<open>arg\<close> the C text writes through \<open>NULL\<close>.
\<close>

definition ap_handle_equals_opt ::
  "(string \<Rightarrow> 'd \<times> string \<times> bool) \<Rightarrow> 'd ArgParser \<Rightarrow> string \<Rightarrow> string
     \<Rightarrow> 'd ArgParser outcome option" where
  "ap_handle_equals_opt strtod parser prefix arg =
     (if CHR ''='' \<notin> set arg then None
      else
        let name = takeWhile (\<lambda>c. c \<noteq> CHR ''='') arg;
            value = tl (dropWhile (\<lambda>c. c \<noteq> CHR ''='') arg)
        in Option.bind (map_get (option_map (fields parser)) name) (\<lambda>found.
             case found of
               None \<Rightarrow> Some (err (prefix @ name @ '' is not a recognised option name''))
             | Some ptr \<Rightarrow>
                 Option.bind (deref_opt parser ptr) (\<lambda>option.
                   if type_opt option = OPT_FLAG
                   then Some (err (prefix @ name @ '' is not a recognised option name''))
                   else if length value = 0
                   then Some (err (''missing value for the '' @ prefix @ name @ '' option''))
                   else and_then (Some (option_try_set strtod option value)) (\<lambda>option.
                          Some (Returns (store_opt parser ptr option))))))"

text \<open>\<^verbatim>\<open>ap_handle_long_opt\<close>.\<close>

definition ap_handle_long_opt ::
  "(string \<Rightarrow> 'd \<times> string \<times> bool) \<Rightarrow> 'd ArgParser \<Rightarrow> string \<Rightarrow> ArgStream
     \<Rightarrow> ('d ArgParser \<times> ArgStream) outcome option" where
  "ap_handle_long_opt strtod parser arg stream =
     Option.bind (map_get (option_map (fields parser)) arg) (\<lambda>found.
       case found of
         Some ptr \<Rightarrow>
           Option.bind (deref_opt parser ptr) (\<lambda>option.
             if type_opt option = OPT_FLAG
             then Some (Returns (store_opt parser ptr
                    (option\<lparr>count_opt := count_opt option + 1\<rparr>), stream))
             else if argstream_has_next stream
             then Option.bind (argstream_next stream) (\<lambda>(a, stream).
                    and_then (Some (option_try_set strtod option a)) (\<lambda>option.
                      Some (Returns (store_opt parser ptr option, stream))))
             else Some (err (''missing argument for the --'' @ arg @ '' option'')))
       | None \<Rightarrow>
           if arg = ''help'' \<and> helptext (fields parser) \<noteq> None
           then Some (Exits (helptext (fields parser)))
           else if arg = ''version'' \<and> version (fields parser) \<noteq> None
           then Some (Exits (version (fields parser)))
           else Some (err (''--'' @ arg @ '' is not a recognised flag or option name'')))"

text \<open>
  The loop of \<^verbatim>\<open>ap_handle_short_opt\<close> over the characters of \<open>arg\<close>; \<open>cs\<close> are the
  characters from \<open>arg[i]\<close> on.
\<close>

fun ap_handle_short_chars ::
  "(string \<Rightarrow> 'd \<times> string \<times> bool) \<Rightarrow> string \<Rightarrow> string \<Rightarrow> 'd ArgParser \<Rightarrow> ArgStream
     \<Rightarrow> ('d ArgParser \<times> ArgStream) outcome option" where
  "ap_handle_short_chars strtod arg [] parser stream = Some (Returns (parser, stream))"
| "ap_handle_short_chars strtod arg (c # cs) parser stream =
     Option.bind (map_get (option_map (fields parser)) [c]) (\<lambda>found.
       case found of
         None \<Rightarrow>
           if c = CHR ''h'' \<and> helptext (fields parser) \<noteq> None
           then Some (Exits (helptext (fields parser)))
           else if c = CHR ''v'' \<and> version (fields parser) \<noteq> None
           then Some (Exits (version (fields parser)))
           else if length arg > 1
           then Some (err (squote @ [c] @ squote @ '' in -'' @ arg
                           @ '' is not a recognised flag or option name''))
           else Some (err (''-'' @ arg @ '' is not a recognised flag or option name''))
       | Some ptr \<Rightarrow>
           Option.bind (deref_opt parser ptr) (\<lambda>option.
             if type_opt option = OPT_FLAG
             then ap_handle_short_chars strtod arg cs
                    (store_opt parser ptr (option\<lparr>count_opt := count_opt option + 1\<rparr>)) stream
             else if argstream_has_next stream
             then Option.bind (argstream_next stream) (\<lambda>(a, stream).
                    and_then (Some (option_try_set strtod option a)) (\<lambda>option.
                      ap_handle_short_chars strtod arg cs (store_opt parser ptr option) stream))
             else if length arg > 1
             then Some (err (''missing argument for the '' @ squote @ [c] @ squote
                             @ '' option in -'' @ arg))
             else Some (err (''missing argument for the -'' @ arg @ '' option''))))"

definition ap_handle_short_opt ::
  "(string \<Rightarrow> 'd \<times> string \<times> bool) \<Rightarrow> 'd ArgParser \<Rightarrow> string \<Rightarrow> ArgStream
     \<Rightarrow> ('d ArgParser \<times> ArgStream) outcome option" where
  "ap_handle_short_opt strtod parser arg stream =
     ap_handle_short_chars strtod arg arg parser stream"

text \<open>
  The inner loop of \<^verbatim>\<open>ap_parse_stream\<close> after a \<open>--\<close>: every remaining argument goes to
  the positional arguments.
\<close>

function take_rest :: "string Vec \<Rightarrow> ArgStream \<Rightarrow> (string Vec \<times> ArgStream) option" where
  "take_rest vec stream =
     (if argstream_has_next stream
      then (if 0 \<le> index_stream stream \<and> nat (index_stream stream) < length (args stream)
            then take_rest (vec_add vec (args stream ! nat (index_stream stream)))
                   (stream\<lparr>index_stream := index_stream stream + 1\<rparr>)
            else None)
      else Some (vec, stream))"
  by pat_completeness auto
termination
  by (relation "measure (\<lambda>(vec, stream). nat (count_stream stream - index_stream stream))")
     (auto simp: argstream_has_next_def)

declare take_rest.simps [simp del]

text \<open>
  The branch of \<^verbatim>\<open>ap_parse_stream\<close> for the automatic \<open>help\<close> command; it never returns
  to the loop.
\<close>

definition ap_help_command ::
  "'d ArgParser \<Rightarrow> ArgStream \<Rightarrow> ('d ArgParser \<times> ArgStream) outcome option" where
  "ap_help_command parser stream =
     (if argstream_has_next stream then
        Option.bind (argstream_next stream) (\<lambda>(name, stream).
          Option.bind (map_get (command_map (fields parser)) name) (\<lambda>found.
            case found of
              Some cmd_ptr \<Rightarrow>
                Option.bind (deref_cmd parser cmd_ptr) (\<lambda>child.
                  Some (Exits (helptext (fields child))))
            | None \<Rightarrow>
                Some (err (squote @ name @ squote @ '' is not a recognised command''))))
      else Some (err ''the help command requires an argument''))"

text \<open>
  The statement \<^verbatim>\<open>if (cmd_parser->callback != NULL) cmd_parser->callback(arg, cmd_parser)\<close>;
  \<open>call cb name child\<close> is the call of the host's function at address \<open>cb\<close>: it may
  change the child parser it is given, leave the process, or not return.
\<close>

definition ap_run_callback ::
  "(nat \<Rightarrow> string \<Rightarrow> 'd ArgParser \<Rightarrow> 'd ArgParser outcome option)
     \<Rightarrow> string \<Rightarrow> 'd ArgParser \<Rightarrow> 'd ArgParser outcome option" where
  "ap_run_callback call arg child =
     (case callback (fields child) of
        None \<Rightarrow> Some (Returns child)
      | Some cb \<Rightarrow> call cb arg child)"

text \<open>
  \<^verbatim>\<open>ap_parse_stream\<close>, as the \<^verbatim>\<open>while\<close> loop from the state (\<open>parser\<close>, \<open>stream\<close>,
  \<open>is_first_arg\<close>): the chain of tests on \<open>arg\<close> gives the state after the iteration,
  or leaves the process; the loop goes on from that state with \<open>is_first_arg = false\<close>.
\<close>

partial_function (option) ap_parse_loop ::
  "(string \<Rightarrow> 'd \<times> string \<times> bool)
     \<Rightarrow> (nat \<Rightarrow> string \<Rightarrow> 'd ArgParser \<Rightarrow> 'd ArgParser outcome option)
     \<Rightarrow> 'd ArgParser \<Rightarrow> ArgStream \<Rightarrow> bool
     \<Rightarrow> ('d ArgParser \<times> ArgStream) outcome option" where
  "ap_parse_loop strtod call parser stream is_first_arg =
     (if argstream_has_next stream then
        Option.bind (argstream_next stream) (\<lambda>(arg, stream).
          Option.bind
            (if arg = ''--'' then
               Option.bind (take_rest (positional_args (fields parser)) stream) (\<lambda>(vec, stream).
                 Some (Returns (assign (\<lambda>d. d\<lparr>positional_args := vec\<rparr>) parser, stream)))
             else if take 2 arg = ''--'' then
               (if CHR ''='' \<in> set arg then
                  and_then (ap_handle_equals_opt strtod parser ''--'' (drop 2 arg)) (\<lambda>parser.
                    Some (Returns (parser, stream)))
                else ap_handle_long_opt strtod parser (drop 2 arg) stream)
             else if arg \<noteq> [] \<and> hd arg = CHR ''-'' then
               (if length arg = 1 \<or> isdigit (arg ! 1) then
                  Some (Returns
                    (assign (\<lambda>d. d\<lparr>positional_args := vec_add (positional_args d) arg\<rparr>) parser,
                     stream))
                else if CHR ''='' \<in> set arg then
                  and_then (ap_handle_equals_opt strtod parser ''-'' (drop 1 arg)) (\<lambda>parser.
                    Some (Returns (parser, stream)))
                else ap_handle_short_opt strtod parser (drop 1 arg) stream)
             else
               Option.bind
                 (if is_first_arg then map_get (command_map (fields parser)) arg else Some None)
                 (\<lambda>found.
                   case found of
                     Some cmd_ptr \<Rightarrow>
                       Option.bind (deref_cmd parser cmd_ptr) (\<lambda>child.
                         Option.bind (ap_parse_loop strtod call child stream True) (\<lambda>r.
                           case r of
                             Returns (child, stream) \<Rightarrow>
                               and_then (ap_run_callback call arg child) (\<lambda>child.
                                 Some (Returns
                                   (store_cmd
                                      (assign (\<lambda>d. d\<lparr>cmd_name := Some arg,
                                                       cmd_parser := Some cmd_ptr\<rparr>) parser)
                                      cmd_ptr child,
                                    stream)))
                           | Fatal e \<Rightarrow> Some (Fatal e)
                           | Exits t \<Rightarrow> Some (Exits t)))
                   | None \<Rightarrow>
                       if is_first_arg \<and> cmd_help (fields parser) \<and> arg = ''help''
                       then ap_help_command parser stream
                       else Some (Returns
                         (assign (\<lambda>d. d\<lparr>positional_args := vec_add (positional_args d) arg\<rparr>)
                            parser,
                          stream))))
            (\<lambda>r. case r of
               Returns (parser, stream) \<Rightarrow> ap_parse_loop strtod call parser stream False
             | Fatal e \<Rightarrow> Some (Fatal e)
             | Exits t \<Rightarrow> Some (Exits t)))
      else Some (Returns (parser, stream)))"

declare ap_parse_loop.simps [code]

definition ap_parse_stream ::
  "(string \<Rightarrow> 'd \<times> string \<times> bool)
     \<Rightarrow> (nat \<Rightarrow> string \<Rightarrow> 'd ArgParser \<Rightarrow> 'd ArgParser outcome option)
     \<Rightarrow> 'd ArgParser \<Rightarrow> ArgStream \<Rightarrow> ('d ArgParser \<times> ArgStream) outcome option" where
  "ap_parse_stream strtod call parser stream = ap_parse_loop strtod call parser stream True"

definition ap_parse_array ::
  "(string \<Rightarrow> 'd \<times> string \<times> bool)
     \<Rightarrow> (nat \<Rightarrow> string \<Rightarrow> 'd ArgParser \<Rightarrow> 'd ArgParser outcome option)
     \<Rightarrow> 'd ArgParser \<Rightarrow> int \<Rightarrow> string list \<Rightarrow> 'd ArgParser outcome option" where
  "ap_parse_array strtod call parser n a =
     and_then (ap_parse_stream strtod call parser (argstream_new n a)) (\<lambda>(parser, stream).
       Some (Returns parser))"

text \<open>\<^verbatim>\<open>ap_parse\<close>: the arguments after the program name.\<close>

definition ap_parse ::
  "(string \<Rightarrow> 'd \<times> string \<times> bool)
     \<Rightarrow> (nat \<Rightarrow> string \<Rightarrow> 'd ArgParser \<Rightarrow> 'd ArgParser outcome option)
     \<Rightarrow> 'd ArgParser \<Rightarrow> int \<Rightarrow> string list \<Rightarrow> 'd ArgParser outcome option" where
  "ap_parse strtod call parser argc argv = ap_parse_array strtod call parser (argc - 1) (drop 1 argv)"

section \<open>Invariant and abstraction of the hash map\<close>

text \<open>The live entries of a table, in slot order.\<close>

definition live :: "'v MapEntry option list \<Rightarrow> 'v MapEntry list" where
  "live es = map the (filter (\<lambda>x. x \<noteq> None) es)"

text \<open>
  Linear probing without deletion: every live entry sits at some distance \<open>d\<close> from the
  slot its hash selects, and no slot on the way is empty.
\<close>

definition probe_ok :: "'v MapEntry option list \<Rightarrow> bool" where
  "probe_ok es \<longleftrightarrow>
     (\<forall>p<length es. \<forall>e. es ! p = Some e \<longrightarrow>
        (\<exists>d<length es. p = (unat (key_hash e) + d) mod length es
           \<and> (\<forall>j<d. es ! ((unat (key_hash e) + j) mod length es) \<noteq> None)))"

definition table_ok :: "nat \<Rightarrow> 'v MapEntry option list \<Rightarrow> bool" where
  "table_ok n es \<longleftrightarrow>
     length es = 2 ^ n \<and> probe_ok es \<and> distinct (map key (live es))
     \<and> (\<forall>e\<in>set (live es). key_hash e = str_hash (key e))"

text \<open>
  The invariant of \<^verbatim>\<open>Map\<close>: an unallocated table of capacity 0, or a table of \<open>2 ^ n\<close>
  slots with \<open>n \<ge> 3\<close>; the threshold is half the capacity, \<open>count\<close> is the number of
  live entries and does not exceed the threshold.
\<close>

definition map_inv :: "'v Map \<Rightarrow> bool" where
  "map_inv m \<longleftrightarrow>
     max_load_threshold m = capacity_map m div 2
     \<and> count_map m = int (length (live (entries_map m)))
     \<and> count_map m \<le> max_load_threshold m
     \<and> (capacity_map m = 0 \<and> entries_map m = []
        \<or> (\<exists>n\<ge>3. capacity_map m = 2 ^ n \<and> table_ok n (entries_map m)))"

text \<open>The finite map that a table represents.\<close>

definition lookup :: "'v Map \<Rightarrow> string \<Rightarrow> 'v option" where
  "lookup m = map_of (map (\<lambda>e. (key e, val e)) (live (entries_map m)))"

abbreviation kv :: "'v MapEntry \<Rightarrow> string \<times> 'v" where
  "kv e \<equiv> (key e, val e)"

text \<open>A sequence of calls of \<^verbatim>\<open>map_set\<close>, one for each pair of the list, in order.\<close>

fun map_set_list :: "'v Map \<Rightarrow> (string \<times> 'v) list \<Rightarrow> 'v Map option" where
  "map_set_list m [] = Some m"
| "map_set_list m ((k, v) # kvs) = Option.bind (map_set m k v) (\<lambda>m. map_set_list m kvs)"


section \<open>Notions used in the statements\<close>

text \<open>
  A stream as \<^verbatim>\<open>ap_parse_array\<close> builds it and the parser leaves it: \<open>count\<close> is the
  length of the array and the index is within it.
\<close>

definition stream_ok :: "ArgStream \<Rightarrow> bool" where
  "stream_ok stream \<longleftrightarrow>
     0 \<le> index_stream stream \<and> index_stream stream \<le> count_stream stream
     \<and> count_stream stream = int (length (args stream))"


text \<open>The arguments that the stream has not handed out yet.\<close>

definition next_args :: "ArgStream \<Rightarrow> string list" where
  "next_args stream = drop (nat (index_stream stream)) (args stream)"

text \<open>
  \<open>tok\<close> is a spelling of the option name \<open>name\<close> that the loop of \<^verbatim>\<open>ap_parse_stream\<close>
  hands to \<^verbatim>\<open>ap_handle_long_opt\<close> or \<^verbatim>\<open>ap_handle_short_opt\<close> with \<open>name\<close> as argument:
  \<open>--name\<close> without a \<open>=\<close> (the bare \<open>--\<close> is the separator), or \<open>-c\<close> for a name of the
  one character \<open>c\<close>, which is not a digit (\<open>-5\<close> is a positional argument), not a
  dash (\<open>--\<close>) and not a \<open>=\<close>.
\<close>

definition option_token :: "string \<Rightarrow> string \<Rightarrow> bool" where
  "option_token tok name \<longleftrightarrow>
     (tok = ''--'' @ name \<and> name \<noteq> [] \<and> CHR ''='' \<notin> set name)
     \<or> (tok = CHR ''-'' # name \<and> length name = 1 \<and> \<not> isdigit (hd name)
         \<and> hd name \<noteq> CHR ''-'' \<and> hd name \<noteq> CHR ''='')"

text \<open>
  The union member that \<^verbatim>\<open>option_try_set\<close> writes for an option of type \<open>t\<close>; nothing is
  written for a flag.
\<close>

definition member_of :: "OptionType \<Rightarrow> 'd OptionValue \<Rightarrow> bool" where
  "member_of t v \<longleftrightarrow>
     (case v of Uninit \<Rightarrow> False | Str_val s \<Rightarrow> t = OPT_STR | Int_val i \<Rightarrow> t = OPT_INT
      | Dbl_val d \<Rightarrow> t = OPT_DBL)"

text \<open>
  \<open>opt'\<close> is \<open>opt\<close> after further occurrences: same type and fallback, the values of
  \<open>opt\<close> followed by values of its kind, and the counter grown by their number (for a
  flag, which holds no value, the counter has not decreased).
\<close>

definition extends_opt :: "'d Option \<Rightarrow> 'd Option \<Rightarrow> bool" where
  "extends_opt opt opt' \<longleftrightarrow>
     type_opt opt' = type_opt opt \<and> fallback opt' = fallback opt
     \<and> count_opt opt \<le> count_opt opt'
     \<and> (\<exists>vs. values_opt opt' = values_opt opt @ vs
           \<and> (\<forall>v\<in>set vs. member_of (type_opt opt) v)
           \<and> (type_opt opt \<noteq> OPT_FLAG \<longrightarrow> count_opt opt' = count_opt opt + int (length vs)))"

text \<open>
  The options of \<open>p'\<close> are those of \<open>p\<close> after further occurrences: the same option map,
  the same addresses, every object extended.
\<close>

definition options_extend :: "'d ArgParser \<Rightarrow> 'd ArgParser \<Rightarrow> bool" where
  "options_extend p p' \<longleftrightarrow>
     option_map (fields p') = option_map (fields p)
     \<and> length (option_heap (fields p')) = length (option_heap (fields p))
     \<and> (\<forall>i<length (option_heap (fields p)).
           extends_opt (option_heap (fields p) ! i) (option_heap (fields p') ! i))"

section \<open>Example inputs\<close>

text \<open>Keys for the hash map.\<close>

definition nine_keys :: "(string \<times> nat) list" where
  "nine_keys =
     [(''a'', 1), (''b'', 2), (''c'', 3), (''d'', 4), (''e'', 5), (''f'', 6), (''g'', 7),
      (''h'', 8), (''i'', 9)]"

definition four_keys :: "(string \<times> nat) list" where
  "four_keys = [(''a'', 1), (''b'', 2), (''c'', 3), (''d'', 4)]"

text \<open>
  A host without floating-point options (\<open>strtod\<close> converts nothing) and with
  callbacks that return at once.
\<close>

definition strtod_none :: "string \<Rightarrow> unit \<times> string \<times> bool" where
  "strtod_none s = ((), s, False)"

definition call_nothing :: "nat \<Rightarrow> string \<Rightarrow> unit ArgParser \<Rightarrow> unit ArgParser outcome option" where
  "call_nothing cb name child = Some (Returns child)"

text \<open>A parser with the command \<open>run\<close>, whose parser has the flag \<open>fast\<close>.\<close>

definition run_parser :: "unit ArgParser" where
  "run_parser =
     (case ap_cmd ap_new ''run'' of
        None \<Rightarrow> ap_new
      | Some (p, c) \<Rightarrow>
          (case ap_flag (command_heap p ! c) ''fast'' of
             None \<Rightarrow> p
           | Some child \<Rightarrow> store_cmd p c child))"

text \<open>A parser with the integer option \<open>n\<close>, fallback 0.\<close>

definition int_n_parser :: "unit ArgParser" where
  "int_n_parser = (case ap_int_opt ap_new ''n'' 0 of None \<Rightarrow> ap_new | Some p \<Rightarrow> p)"

text \<open>The parser that \<^verbatim>\<open>main\<close> of \<^verbatim>\<open>dmp.c\<close> registers.\<close>

definition hexdump_parser :: "unit ArgParser" where
  "hexdump_parser =
     (case Option.bind (ap_int_opt ap_new ''line l'' 16) (\<lambda>p.
             Option.bind (ap_int_opt p ''num n'' (- 1)) (\<lambda>p.
               ap_int_opt p ''offset o'' 0)) of
        None \<Rightarrow> ap_new
      | Some p \<Rightarrow> p)"

text \<open>A parser with one flag under the aliases \<open>v\<close> and \<open>verbose\<close>.\<close>

definition verbose_parser :: "unit ArgParser" where
  "verbose_parser = (case ap_flag ap_new ''v verbose'' of None \<Rightarrow> ap_new | Some p \<Rightarrow> p)"

text \<open>Argument arrays.\<close>

definition run_args :: ArgStream where
  "run_args = argstream_new 3 [''run'', ''--fast'', ''x'']"

definition sep_args :: ArgStream where
  "sep_args = argstream_new 3 [''--'', ''--foo'', ''-b'']"

definition minus5_args :: ArgStream where
  "minus5_args = argstream_new 1 [''-5'']"

definition n_equals_args :: ArgStream where
  "n_equals_args = argstream_new 1 [''-n=12'']"

definition verbose_equals_args :: ArgStream where
  "verbose_equals_args = argstream_new 1 [''--verbose='']"

section \<open>Correctness of the hash map\<close>

lemma live_simps [simp]:
  "live [] = []"
  "live (None # es) = live es"
  "live (Some e # es) = e # live es"
  "live (xs @ ys) = live xs @ live ys"
  by (simp_all add: live_def)

lemma live_replicate [simp]: "live (replicate n None) = []"
  by (induction n) simp_all

lemma set_live: "set (live es) = {e. Some e \<in> set es}"
  by (induction es) (auto simp: live_def)

lemma nth_in_live: "i < length es \<Longrightarrow> es ! i = Some e \<Longrightarrow> e \<in> set (live es)"
  by (metis mem_Collect_eq nth_mem set_live)

lemma live_update_None:
  assumes "p < length es" "es ! p = None"
  shows "\<exists>A B. live es = A @ B \<and> live (es[p := Some e]) = A @ e # B"
proof -
  have "es = take p es @ None # drop (Suc p) es"
    using assms by (metis id_take_nth_drop)
  moreover have "es[p := Some e] = take p es @ Some e # drop (Suc p) es"
    using assms by (simp add: upd_conv_take_nth_drop)
  ultimately have "live es = live (take p es) @ live (drop (Suc p) es)"
    "live (es[p := Some e]) = live (take p es) @ e # live (drop (Suc p) es)"
    by (metis live_simps(2,4), metis live_simps(3,4))
  then show ?thesis by blast
qed

lemma live_update_Some:
  assumes "p < length es" "es ! p = Some e0"
  shows "\<exists>A B. live es = A @ e0 # B \<and> live (es[p := Some e]) = A @ e # B"
proof -
  have "es = take p es @ Some e0 # drop (Suc p) es"
    using assms by (metis id_take_nth_drop)
  moreover have "es[p := Some e] = take p es @ Some e # drop (Suc p) es"
    using assms by (simp add: upd_conv_take_nth_drop)
  ultimately have "live es = live (take p es) @ e0 # live (drop (Suc p) es)"
    "live (es[p := Some e]) = live (take p es) @ e # live (drop (Suc p) es)"
    by (metis live_simps(3,4))+
  then show ?thesis by blast
qed

lemma live_index_inj_less:
  assumes d: "distinct (map key (live es))" and ij: "i < j" "j < length es"
    and ei: "es ! i = Some e" and ej: "es ! j = Some e'"
  shows "key e \<noteq> key e'"
proof -
  have es: "es = take j es @ Some e' # drop (Suc j) es"
    using ij ej by (metis id_take_nth_drop)
  have "take j es ! i = Some e" using ij ei by simp
  then have "e \<in> set (live (take j es))"
    using ij by (intro nth_in_live [of i "take j es" e]) simp_all
  moreover have "distinct (map key (live (take j es) @ e' # live (drop (Suc j) es)))"
    using d es by (metis live_simps(3,4))
  ultimately show ?thesis by (auto simp: image_iff)
qed

lemma live_index_inj:
  assumes "distinct (map key (live es))" "i < length es" "j < length es"
    "es ! i = Some e" "es ! j = Some e'" "key e = key e'"
  shows "i = j"
  using assms live_index_inj_less [of es i j e e'] live_index_inj_less [of es j i e' e]
  by (metis linorder_neqE_nat)

lemma exists_empty_slot:
  assumes "length (live es) < length es"
  shows "\<exists>q<length es. es ! q = None"
proof (rule ccontr)
  assume "\<not> ?thesis"
  then have "\<forall>x\<in>set es. x \<noteq> None" by (metis in_set_conv_nth)
  then have "filter (\<lambda>x. x \<noteq> None) es = es" by (simp add: filter_id_conv)
  then have "length (live es) = length es" by (simp add: live_def)
  with assms show False by simp
qed

lemma mask_mod: "0 \<le> x \<Longrightarrow> nat (x AND (2 ^ n - 1)) = nat x mod 2 ^ n"
proof -
  assume x: "0 \<le> x"
  have "x AND (2 ^ n - 1) = x mod 2 ^ n"
    by (metis mask_eq_exp_minus_1 take_bit_eq_mask take_bit_eq_mod)
  then show ?thesis using x by (simp add: nat_mod_distrib nat_power_eq)
qed

lemma mod_add_inj_less:
  fixes a c j d :: nat
  assumes "(a + j) mod c = (a + d) mod c" "j < d" "d < c"
  shows False
proof -
  have "a + j \<le> a + d" using assms(2) by simp
  then have "c dvd (a + d) - (a + j)"
    using assms(1) mod_eq_dvd_iff_nat [of "a + j" "a + d" c] by simp
  then have "c dvd d - j" by simp
  moreover have "0 < d - j" "d - j < c" using assms by simp_all
  ultimately show False using nat_dvd_not_less by blast
qed

lemma mod_add_inj:
  fixes a c j d :: nat
  assumes "(a + j) mod c = (a + d) mod c" "j < c" "d < c"
  shows "j = d"
  using assms mod_add_inj_less [of a j c d] mod_add_inj_less [of a d c j]
  by (metis linorder_neqE_nat)

lemma find_loop_steps:
  assumes cap: "capacity_map m = 2 ^ n" and len: "length (entries_map m) = 2 ^ n"
    and s: "s < 2 ^ n"
    and skip: "\<forall>j<d. \<exists>e. entries_map m ! ((s + j) mod 2 ^ n) = Some e
                 \<and> \<not> (h = key_hash e \<and> k = key e)"
    and stop: "entries_map m ! ((s + d) mod 2 ^ n) = None
               \<or> (\<exists>e. entries_map m ! ((s + d) mod 2 ^ n) = Some e \<and> h = key_hash e \<and> k = key e)"
  shows "map_find_loop m k h s = Some ((s + d) mod 2 ^ n)"
  using s skip stop
proof (induction d arbitrary: s)
  case 0
  then show ?case using len by (subst map_find_loop.simps) auto
next
  case (Suc d)
  let ?s' = "Suc s mod 2 ^ n"
  have nxt: "nat ((int s + 1) AND (capacity_map m - 1)) = ?s'"
    using mask_mod [of "int s + 1" n] cap by (simp add: nat_add_distrib)
  from Suc.prems(2) [rule_format, of 0] Suc.prems(1)
  obtain e where e: "entries_map m ! s = Some e" "\<not> (h = key_hash e \<and> k = key e)"
    by auto
  have shift: "(?s' + j) mod 2 ^ n = (s + Suc j) mod 2 ^ n" for j
    by (simp add: mod_add_left_eq)
  have "map_find_loop m k h ?s' = Some ((?s' + d) mod 2 ^ n)"
  proof (rule Suc.IH)
    show "?s' < 2 ^ n" by simp
    show "\<forall>j<d. \<exists>e. entries_map m ! ((?s' + j) mod 2 ^ n) = Some e
                 \<and> \<not> (h = key_hash e \<and> k = key e)"
    proof (intro allI impI)
      fix j assume "j < d"
      then have "Suc j < Suc d" by simp
      from Suc.prems(2) [rule_format, OF this] show
        "\<exists>e. entries_map m ! ((?s' + j) mod 2 ^ n) = Some e \<and> \<not> (h = key_hash e \<and> k = key e)"
        unfolding shift .
    qed
    show "entries_map m ! ((?s' + d) mod 2 ^ n) = None
          \<or> (\<exists>e. entries_map m ! ((?s' + d) mod 2 ^ n) = Some e \<and> h = key_hash e \<and> k = key e)"
      using Suc.prems(3) unfolding shift .
  qed
  then have "map_find_loop m k h ?s' = Some ((s + Suc d) mod 2 ^ n)"
    unfolding shift .
  moreover have "map_find_loop m k h s = map_find_loop m k h ?s'"
    using e Suc.prems(1) len nxt by (subst map_find_loop.simps) auto
  ultimately show ?case by simp
qed

lemma map_find_start:
  assumes "capacity_map m = 2 ^ n"
  shows "map_find m k h = map_find_loop m k h (unat h mod 2 ^ n)"
  using assms mask_mod [of "uint h" n] by (simp add: map_find_def)


lemma find_absent:
  assumes cap: "capacity_map m = 2 ^ n" and ok: "table_ok n (entries_map m)"
    and free: "length (live (entries_map m)) < 2 ^ n"
    and absent: "k \<notin> key ` set (live (entries_map m))"
  shows "\<exists>p d. map_find m k h = Some p \<and> p < 2 ^ n \<and> entries_map m ! p = None \<and> d < 2 ^ n
           \<and> p = (unat h + d) mod 2 ^ n
           \<and> (\<forall>j<d. entries_map m ! ((unat h + j) mod 2 ^ n) \<noteq> None)"
proof -
  let ?es = "entries_map m"
  let ?c = "(2::nat) ^ n"
  let ?s = "unat h mod ?c"
  have len: "length ?es = ?c" using ok by (simp add: table_ok_def)
  obtain q where q: "q < ?c" "?es ! q = None"
    using exists_empty_slot [of ?es] free len by auto
  define Q where "Q j \<longleftrightarrow> ?es ! ((unat h + j) mod ?c) = None" for j
  let ?j0 = "(q + ?c - ?s) mod ?c"
  have "(unat h + ?j0) mod ?c = (?s + (q + ?c - ?s)) mod ?c"
    by (simp only: mod_add_left_eq mod_add_right_eq)
  also have "?s + (q + ?c - ?s) = q + ?c"
    by (simp add: less_imp_le trans_le_add2)
  also have "(q + ?c) mod ?c = q" using q by simp
  finally have "Q ?j0" using q by (simp add: Q_def)
  define d where "d = (LEAST j. Q j)"
  have Qd: "Q d" unfolding d_def using \<open>Q ?j0\<close> by (rule LeastI)
  have "d \<le> ?j0" unfolding d_def using \<open>Q ?j0\<close> by (rule Least_le)
  then have dc: "d < ?c" by (meson le_less_trans mod_less_divisor zero_less_numeral zero_less_power)
  have before: "\<not> Q j" if "j < d" for j
    using that unfolding d_def by (rule not_less_Least)
  have shift: "(?s + j) mod ?c = (unat h + j) mod ?c" for j
    by (simp add: mod_add_left_eq)
  have "map_find_loop m k h ?s = Some ((?s + d) mod ?c)"
  proof (rule find_loop_steps [OF cap len])
    show "?s < ?c" by simp
    show "\<forall>j<d. \<exists>e. ?es ! ((?s + j) mod ?c) = Some e \<and> \<not> (h = key_hash e \<and> k = key e)"
    proof (intro allI impI)
      fix j assume "j < d"
      then obtain e where e: "?es ! ((unat h + j) mod ?c) = Some e"
        using before [of j] by (auto simp: Q_def)
      then have "e \<in> set (live ?es)"
        using len by (intro nth_in_live [of "(unat h + j) mod ?c" ?es e]) simp_all
      then have "k \<noteq> key e" using absent by auto
      then show "\<exists>e. ?es ! ((?s + j) mod ?c) = Some e \<and> \<not> (h = key_hash e \<and> k = key e)"
        using e unfolding shift by simp
    qed
    show "?es ! ((?s + d) mod ?c) = None
          \<or> (\<exists>e. ?es ! ((?s + d) mod ?c) = Some e \<and> h = key_hash e \<and> k = key e)"
      using Qd unfolding shift Q_def by simp
  qed
  then have "map_find m k h = Some ((unat h + d) mod ?c)"
    unfolding shift by (simp add: map_find_start [OF cap])
  moreover have "?es ! ((unat h + d) mod ?c) = None" using Qd by (simp add: Q_def)
  moreover have "\<forall>j<d. ?es ! ((unat h + j) mod ?c) \<noteq> None"
    using before by (simp add: Q_def)
  ultimately show ?thesis using dc
    by (intro exI [of _ "(unat h + d) mod ?c"] exI [of _ d]) simp
qed

lemma find_present:
  assumes cap: "capacity_map m = 2 ^ n" and ok: "table_ok n (entries_map m)"
    and p: "p < 2 ^ n" "entries_map m ! p = Some e"
  shows "map_find m (key e) (key_hash e) = Some p"
proof -
  let ?es = "entries_map m"
  let ?c = "(2::nat) ^ n"
  let ?h = "key_hash e"
  let ?s = "unat ?h mod ?c"
  have len: "length ?es = ?c" and po: "probe_ok ?es" and dist: "distinct (map key (live ?es))"
    using ok by (simp_all add: table_ok_def)
  from po p len obtain d where d: "d < ?c" "p = (unat ?h + d) mod ?c"
    "\<forall>j<d. ?es ! ((unat ?h + j) mod ?c) \<noteq> None"
    unfolding probe_ok_def by (metis (no_types, lifting))
  have shift: "(?s + j) mod ?c = (unat ?h + j) mod ?c" for j
    by (simp add: mod_add_left_eq)
  have "map_find_loop m (key e) ?h ?s = Some ((?s + d) mod ?c)"
  proof (rule find_loop_steps [OF cap len])
    show "?s < ?c" by simp
    show "\<forall>j<d. \<exists>e'. ?es ! ((?s + j) mod ?c) = Some e' \<and> \<not> (?h = key_hash e' \<and> key e = key e')"
    proof (intro allI impI)
      fix j assume j: "j < d"
      then obtain e' where e': "?es ! ((unat ?h + j) mod ?c) = Some e'"
        using d(3) by auto
      have "key e \<noteq> key e'"
      proof
        assume "key e = key e'"
        then have "p = (unat ?h + j) mod ?c"
          using live_index_inj [OF dist _ _ p(2) e'] p(1) len by simp
        then have "j = d" using d(2) mod_add_inj [of "unat ?h" j ?c d] j d(1) by simp
        then show False using j by simp
      qed
      then show "\<exists>e'. ?es ! ((?s + j) mod ?c) = Some e' \<and> \<not> (?h = key_hash e' \<and> key e = key e')"
        using e' unfolding shift by simp
    qed
    show "?es ! ((?s + d) mod ?c) = None
          \<or> (\<exists>e'. ?es ! ((?s + d) mod ?c) = Some e' \<and> ?h = key_hash e' \<and> key e = key e')"
      using p(2) d(2) unfolding shift by simp
  qed
  then show ?thesis
    unfolding shift using d(2) by (simp add: map_find_start [OF cap])
qed

lemma probe_ok_update:
  assumes po: "probe_ok es" and p: "p < length es"
    and path: "\<exists>d<length es. p = (unat (key_hash e) + d) mod length es
                 \<and> (\<forall>j<d. es ! ((unat (key_hash e) + j) mod length es) \<noteq> None)"
  shows "probe_ok (es[p := Some e])"
  unfolding probe_ok_def
proof (intro allI impI)
  fix q e'
  assume q: "q < length (es[p := Some e])" and e': "es[p := Some e] ! q = Some e'"
  have keep: "es[p := Some e] ! x \<noteq> None" if "es ! x \<noteq> None" for x
    using that p by (cases "x = p") simp_all
  have "\<exists>d<length es. q = (unat (key_hash e') + d) mod length es
           \<and> (\<forall>j<d. es ! ((unat (key_hash e') + j) mod length es) \<noteq> None)"
  proof (cases "q = p")
    case True
    then have "e' = e" using e' p by simp
    then show ?thesis using path True by simp
  next
    case False
    then have "es ! q = Some e'" using e' by simp
    then show ?thesis using po q unfolding probe_ok_def by simp
  qed
  then obtain d where "d < length es" "q = (unat (key_hash e') + d) mod length es"
    "\<forall>j<d. es ! ((unat (key_hash e') + j) mod length es) \<noteq> None" by blast
  then show "\<exists>d<length (es[p := Some e]). q = (unat (key_hash e') + d) mod length (es[p := Some e])
     \<and> (\<forall>j<d. es[p := Some e] ! ((unat (key_hash e') + j) mod length (es[p := Some e])) \<noteq> None)"
    using keep by (intro exI [of _ d]) simp
qed

lemma map_of_insert_mid:
  "k \<notin> fst ` set A \<Longrightarrow> map_of (A @ (k, v) # B) = (map_of (A @ B))(k \<mapsto> v)"
  by (simp add: map_add_upd_left dom_map_of_conv_image_fst)

lemma table_insert:
  assumes ok: "table_ok n es" and p: "p < 2 ^ n" "es ! p = None"
    and fresh: "key e \<notin> key ` set (live es)" and hash: "key_hash e = str_hash (key e)"
    and path: "d < 2 ^ n" "p = (unat (key_hash e) + d) mod 2 ^ n"
      "\<forall>j<d. es ! ((unat (key_hash e) + j) mod 2 ^ n) \<noteq> None"
  shows "table_ok n (es[p := Some e])"
    and "length (live (es[p := Some e])) = Suc (length (live es))"
    and "map_of (map kv (live (es[p := Some e]))) = (map_of (map kv (live es)))(key e \<mapsto> val e)"
    and "set (live (es[p := Some e])) = insert e (set (live es))"
proof -
  have len: "length es = 2 ^ n" and po: "probe_ok es" and dist: "distinct (map key (live es))"
    and hs: "\<forall>e\<in>set (live es). key_hash e = str_hash (key e)"
    using ok by (simp_all add: table_ok_def)
  obtain A B where AB: "live es = A @ B" "live (es[p := Some e]) = A @ e # B"
    using live_update_None [of p es e] p len by auto
  have "probe_ok (es[p := Some e])"
    using probe_ok_update [OF po, of p e] p(1) path len by auto
  moreover have "distinct (map key (live (es[p := Some e])))"
    using dist fresh AB by auto
  moreover have "\<forall>x\<in>set (live (es[p := Some e])). key_hash x = str_hash (key x)"
    using hs hash AB by auto
  ultimately show "table_ok n (es[p := Some e])" using len by (simp add: table_ok_def)
  show "length (live (es[p := Some e])) = Suc (length (live es))" using AB by simp
  have "key e \<notin> fst ` set (map kv A)" using fresh AB by (auto simp: image_iff)
  then show "map_of (map kv (live (es[p := Some e]))) = (map_of (map kv (live es)))(key e \<mapsto> val e)"
    using AB map_of_insert_mid [of "key e" "map kv A" "val e" "map kv B"] by simp
  show "set (live (es[p := Some e])) = insert e (set (live es))" using AB by auto
qed

lemma table_update:
  assumes ok: "table_ok n es" and p: "p < 2 ^ n" "es ! p = Some e"
  shows "table_ok n (es[p := Some (e\<lparr>val := v\<rparr>)])"
    and "length (live (es[p := Some (e\<lparr>val := v\<rparr>)])) = length (live es)"
    and "map_of (map kv (live (es[p := Some (e\<lparr>val := v\<rparr>)])))
           = (map_of (map kv (live es)))(key e \<mapsto> v)"
proof -
  let ?e' = "e\<lparr>val := v\<rparr>"
  have len: "length es = 2 ^ n" and po: "probe_ok es" and dist: "distinct (map key (live es))"
    and hs: "\<forall>e\<in>set (live es). key_hash e = str_hash (key e)"
    using ok by (simp_all add: table_ok_def)
  obtain A B where AB: "live es = A @ e # B" "live (es[p := Some ?e']) = A @ ?e' # B"
    using live_update_Some [of p es e ?e'] p len by auto
  have "\<exists>d<length es. p = (unat (key_hash e) + d) mod length es
          \<and> (\<forall>j<d. es ! ((unat (key_hash e) + j) mod length es) \<noteq> None)"
    using po p len unfolding probe_ok_def by simp
  then have "probe_ok (es[p := Some ?e'])"
    using probe_ok_update [OF po, of p ?e'] p(1) len by simp
  moreover have "distinct (map key (live (es[p := Some ?e'])))"
    using dist AB by auto
  moreover have "\<forall>x\<in>set (live (es[p := Some ?e'])). key_hash x = str_hash (key x)"
    using hs AB by auto
  ultimately show "table_ok n (es[p := Some ?e'])" using len by (simp add: table_ok_def)
  show "length (live (es[p := Some ?e'])) = length (live es)" using AB by simp
  have "key e \<notin> fst ` set (map kv A)" using dist AB by (auto simp: image_iff)
  then show "map_of (map kv (live (es[p := Some ?e']))) = (map_of (map kv (live es)))(key e \<mapsto> v)"
    using AB map_of_insert_mid [of "key e" "map kv A" _ "map kv B"] by simp
qed


lemma map_rehash_correct:
  assumes cap: "capacity_map m = 2 ^ n" and ok: "table_ok n (entries_map m)"
    and cnt: "count_map m = int (length (live (entries_map m)))"
    and room: "length (live (entries_map m)) + length (live old) < 2 ^ n"
    and dist: "distinct (map key (live old))"
    and disj: "key ` set (live old) \<inter> key ` set (live (entries_map m)) = {}"
    and hash: "\<forall>e\<in>set (live old). key_hash e = str_hash (key e)"
  shows "\<exists>m'. map_rehash m old = Some m' \<and> capacity_map m' = capacity_map m
      \<and> max_load_threshold m' = max_load_threshold m
      \<and> table_ok n (entries_map m') \<and> count_map m' = int (length (live (entries_map m')))
      \<and> length (live (entries_map m')) = length (live (entries_map m)) + length (live old)
      \<and> lookup m' = lookup m ++ map_of (map kv (live old))"
  using assms
proof (induction old arbitrary: m)
  case Nil
  then show ?case by simp
next
  case (Cons x old)
  show ?case
  proof (cases x)
    case None
    then show ?thesis using Cons.IH [of m] Cons.prems by simp
  next
    case (Some e)
    let ?es = "entries_map m"
    have fresh: "key e \<notin> key ` set (live ?es)"
      using Cons.prems(6) Some by auto
    have he: "key_hash e = str_hash (key e)" using Cons.prems(7) Some by simp
    have free: "length (live ?es) < 2 ^ n" using Cons.prems(4) by simp
    obtain p d where pd: "map_find m (key e) (key_hash e) = Some p" "p < 2 ^ n" "?es ! p = None"
      "d < 2 ^ n" "p = (unat (key_hash e) + d) mod 2 ^ n"
      "\<forall>j<d. ?es ! ((unat (key_hash e) + j) mod 2 ^ n) \<noteq> None"
      using find_absent [OF Cons.prems(1,2) free fresh, of "key_hash e"] by blast
    let ?m1 = "m\<lparr>entries_map := ?es[p := Some e], count_map := count_map m + 1\<rparr>"
    note ins = table_insert [OF Cons.prems(2) pd(2,3) fresh he pd(4,5,6)]
    have "\<exists>m'. map_rehash ?m1 old = Some m' \<and> capacity_map m' = capacity_map ?m1
      \<and> max_load_threshold m' = max_load_threshold ?m1
      \<and> table_ok n (entries_map m') \<and> count_map m' = int (length (live (entries_map m')))
      \<and> length (live (entries_map m')) = length (live (entries_map ?m1)) + length (live old)
      \<and> lookup m' = lookup ?m1 ++ map_of (map kv (live old))"
    proof (rule Cons.IH)
      show "capacity_map ?m1 = 2 ^ n" using Cons.prems(1) by simp
      show "table_ok n (entries_map ?m1)" using ins(1) by simp
      show "count_map ?m1 = int (length (live (entries_map ?m1)))"
        using ins(2) Cons.prems(3) by simp
      show "length (live (entries_map ?m1)) + length (live old) < 2 ^ n"
        using ins(2) Cons.prems(4) Some by simp
      show "distinct (map key (live old))" using Cons.prems(5) Some by simp
      show "key ` set (live old) \<inter> key ` set (live (entries_map ?m1)) = {}"
        using ins(4) Cons.prems(5,6) Some by auto
      show "\<forall>e\<in>set (live old). key_hash e = str_hash (key e)"
        using Cons.prems(7) Some by simp
    qed
    then obtain m' where m': "map_rehash ?m1 old = Some m'" "capacity_map m' = capacity_map m"
      "max_load_threshold m' = max_load_threshold m" "table_ok n (entries_map m')"
      "count_map m' = int (length (live (entries_map m')))"
      "length (live (entries_map m')) = Suc (length (live ?es)) + length (live old)"
      "lookup m' = lookup ?m1 ++ map_of (map kv (live old))"
      using ins(2) by auto
    have "key e \<notin> dom (map_of (map kv (live old)))"
      using Cons.prems(5) Some by (auto simp: dom_map_of_conv_image_fst image_iff)
    then have lk: "lookup m' = lookup m ++ map_of (map kv (live (x # old)))"
      using m'(7) ins(3) Some by (simp add: lookup_def map_add_upd_left)
    have run: "map_rehash m (x # old) = Some m'" using pd(1) m'(1) Some by simp
    have ln: "length (live (entries_map m')) = length (live ?es) + length (live (x # old))"
      using m'(6) Some by simp
    show ?thesis using run m'(2,3,4,5) ln lk by blast
  qed
qed

lemma table_ok_empty: "table_ok n (replicate (2 ^ n) None)"
  by (simp add: table_ok_def probe_ok_def)

lemma pow2_ge8: "3 \<le> n \<Longrightarrow> (8::int) \<le> 2 ^ n"
  using power_increasing [of 3 n "2::int"] by simp

lemma map_grow_correct:
  assumes inv: "map_inv m"
  shows "\<exists>m'. map_grow m = Some m' \<and> map_inv m' \<and> lookup m' = lookup m
           \<and> count_map m' = count_map m \<and> count_map m' < max_load_threshold m'"
proof -
  let ?es = "entries_map m"
  from inv have thr: "max_load_threshold m = capacity_map m div 2"
    and cnt: "count_map m = int (length (live ?es))"
    and le: "count_map m \<le> max_load_threshold m"
    and shape: "capacity_map m = 0 \<and> ?es = []
                \<or> (\<exists>n\<ge>3. capacity_map m = 2 ^ n \<and> table_ok n ?es)"
    by (simp_all add: map_inv_def)
  obtain n' where n': "3 \<le> n'"
    "(if capacity_map m < 8 then 8 else capacity_map m * 2) = 2 ^ n'"
    "2 * length (live ?es) < 2 ^ n'"
  proof -
    from shape show ?thesis
    proof
      assume "capacity_map m = 0 \<and> ?es = []"
      then show ?thesis using that [of 3] by simp
    next
      assume "\<exists>n\<ge>3. capacity_map m = 2 ^ n \<and> table_ok n ?es"
      then obtain n where n: "3 \<le> n" "capacity_map m = 2 ^ n" by blast
      obtain k where k: "n = Suc k" using n(1) by (cases n) auto
      have "length (live ?es) \<le> 2 ^ k" using cnt le thr n k by simp
      moreover have "(0::nat) < 2 ^ k" by simp
      ultimately have "2 * length (live ?es) < 2 * (2 * 2 ^ k)" by linarith
      then have "2 * length (live ?es) < 2 ^ Suc n" using k by simp
      then show ?thesis using that [of "Suc n"] n pow2_ge8 [OF n(1)] by simp
    qed
  qed
  have old: "take (nat (capacity_map m)) ?es = ?es"
    using shape by (auto simp: table_ok_def nat_power_eq)
  have dist: "distinct (map key (live ?es))" and hs: "\<forall>e\<in>set (live ?es). key_hash e = str_hash (key e)"
    using shape by (auto simp: table_ok_def)
  let ?m0 = "\<lparr>count_map = 0, capacity_map = 2 ^ n', max_load_threshold = 2 ^ n' div 2,
              entries_map = replicate (nat (2 ^ n')) None\<rparr> :: 'a Map"
  have ent0: "entries_map ?m0 = replicate (2 ^ n') None" by (simp add: nat_power_eq)
  have "\<exists>m'. map_rehash ?m0 ?es = Some m' \<and> capacity_map m' = capacity_map ?m0
      \<and> max_load_threshold m' = max_load_threshold ?m0
      \<and> table_ok n' (entries_map m') \<and> count_map m' = int (length (live (entries_map m')))
      \<and> length (live (entries_map m')) = length (live (entries_map ?m0)) + length (live ?es)
      \<and> lookup m' = lookup ?m0 ++ map_of (map kv (live ?es))"
  proof (rule map_rehash_correct)
    show "capacity_map ?m0 = 2 ^ n'" by simp
    show "table_ok n' (entries_map ?m0)" unfolding ent0 by (rule table_ok_empty)
    show "count_map ?m0 = int (length (live (entries_map ?m0)))" unfolding ent0 by simp
    show "length (live (entries_map ?m0)) + length (live ?es) < 2 ^ n'"
      unfolding ent0 using n'(3) by simp
    show "distinct (map key (live ?es))" by (rule dist)
    show "key ` set (live ?es) \<inter> key ` set (live (entries_map ?m0)) = {}"
      unfolding ent0 by simp
    show "\<forall>e\<in>set (live ?es). key_hash e = str_hash (key e)" by (rule hs)
  qed
  then obtain m' where m': "map_rehash ?m0 ?es = Some m'" "capacity_map m' = 2 ^ n'"
    "max_load_threshold m' = 2 ^ n' div 2" "table_ok n' (entries_map m')"
    "count_map m' = int (length (live (entries_map m')))"
    "length (live (entries_map m')) = length (live ?es)"
    "lookup m' = lookup ?m0 ++ map_of (map kv (live ?es))"
    unfolding ent0 by auto
  have grow: "map_grow m = Some m'"
    using m'(1) n'(2) old by (simp add: map_grow_def Let_def)
  have "int (2 * length (live ?es)) < int (2 ^ n')"
    using n'(3) by (rule iffD2 [OF of_nat_less_iff])
  then have "2 * int (length (live ?es)) < 2 ^ n'" by simp
  moreover obtain k' where "n' = Suc k'" using n'(1) by (cases n') auto
  ultimately have lt: "count_map m' < max_load_threshold m'" using m'(3,5,6) by simp
  have "map_inv m'"
    unfolding map_inv_def using m' lt n'(1) by auto
  moreover have "lookup m' = lookup m" using m'(7) by (simp add: lookup_def)
  ultimately show ?thesis using grow lt m'(5,6) cnt by auto
qed


lemma map_inv_new: "map_inv map_new"
  by (simp add: map_inv_def map_new_def)

lemma lookup_new: "lookup map_new = Map.empty"
  by (simp add: lookup_def map_new_def)

lemma dom_lookup: "dom (lookup m) = key ` set (live (entries_map m))"
  by (simp add: lookup_def dom_map_of_conv_image_fst image_image)

lemma map_inv_ready:
  assumes inv: "map_inv m" and lt: "count_map m < capacity_map m"
  obtains n where "3 \<le> n" "capacity_map m = 2 ^ n" "table_ok n (entries_map m)"
    "length (live (entries_map m)) < 2 ^ n" "length (entries_map m) = 2 ^ n"
proof -
  from inv have cnt: "count_map m = int (length (live (entries_map m)))"
    and shape: "capacity_map m = 0 \<and> entries_map m = []
                \<or> (\<exists>n\<ge>3. capacity_map m = 2 ^ n \<and> table_ok n (entries_map m))"
    by (simp_all add: map_inv_def)
  from shape lt cnt obtain n where n: "3 \<le> n" "capacity_map m = 2 ^ n" "table_ok n (entries_map m)"
    by auto
  have "int (length (live (entries_map m))) < int (2 ^ n)" using lt cnt n(2) by simp
  then have "length (live (entries_map m)) < 2 ^ n" by (rule iffD1 [OF of_nat_less_iff])
  moreover have "length (entries_map m) = 2 ^ n" using n(3) by (simp add: table_ok_def)
  ultimately show ?thesis using that n by blast
qed

lemma map_set_correct:
  assumes inv: "map_inv m"
  shows "\<exists>m'. map_set m k v = Some m' \<and> map_inv m' \<and> lookup m' = (lookup m)(k \<mapsto> v)
           \<and> count_map m' = (if k \<in> dom (lookup m) then count_map m else count_map m + 1)"
proof -
  obtain m1 where m1: "(if count_map m = max_load_threshold m then map_grow m else Some m) = Some m1"
    "map_inv m1" "lookup m1 = lookup m" "count_map m1 < max_load_threshold m1"
    "count_map m1 = count_map m"
  proof (cases "count_map m = max_load_threshold m")
    case True
    then show ?thesis using map_grow_correct [OF inv] that by auto
  next
    case False
    then show ?thesis using inv that [of m] by (auto simp: map_inv_def)
  qed
  let ?es = "entries_map m1"
  have thr: "max_load_threshold m1 = capacity_map m1 div 2"
    and cnt: "count_map m1 = int (length (live ?es))"
    using m1(2) by (simp_all add: map_inv_def)
  have "count_map m1 < capacity_map m1" using m1(4) thr cnt by linarith
  with m1(2) obtain n where n: "3 \<le> n" "capacity_map m1 = 2 ^ n" "table_ok n ?es"
    "length (live ?es) < 2 ^ n" "length ?es = 2 ^ n"
    by (rule map_inv_ready)
  show ?thesis
  proof (cases "k \<in> key ` set (live ?es)")
    case False
    obtain p d where pd: "map_find m1 k (str_hash k) = Some p" "p < 2 ^ n" "?es ! p = None"
      "d < 2 ^ n" "p = (unat (str_hash k) + d) mod 2 ^ n"
      "\<forall>j<d. ?es ! ((unat (str_hash k) + j) mod 2 ^ n) \<noteq> None"
      using find_absent [OF n(2,3,4) False, of "str_hash k"] by blast
    let ?e = "\<lparr>key = k, val = v, key_hash = str_hash k\<rparr>"
    let ?m' = "m1\<lparr>count_map := count_map m1 + 1, entries_map := ?es[p := Some ?e]\<rparr>"
    have ins: "table_ok n (?es[p := Some ?e])"
      "length (live (?es[p := Some ?e])) = Suc (length (live ?es))"
      "map_of (map kv (live (?es[p := Some ?e]))) = (map_of (map kv (live ?es)))(k \<mapsto> v)"
      using table_insert [OF n(3) pd(2,3), of ?e d] False pd(4,5,6) by simp_all
    have run: "map_set m k v = Some ?m'"
      using m1(1) pd(1,3) by (simp add: map_set_def Let_def)
    have "map_inv ?m'"
      unfolding map_inv_def using ins(1,2) thr cnt m1(4) n(1,2) by auto
    moreover have "lookup ?m' = (lookup m)(k \<mapsto> v)"
      using ins(3) m1(3) by (simp add: lookup_def)
    moreover have "k \<notin> dom (lookup m)" using False m1(3) dom_lookup [of m1] by simp
    ultimately show ?thesis using run m1(5) by simp
  next
    case True
    then obtain e where e: "e \<in> set (live ?es)" "key e = k" by auto
    then obtain p where p: "p < length ?es" "?es ! p = Some e"
      by (auto simp: set_live in_set_conv_nth)
    have he: "key_hash e = str_hash k" using n(3) e by (simp add: table_ok_def)
    have p': "p < 2 ^ n" using p(1) n(5) by simp
    have fnd: "map_find m1 k (str_hash k) = Some p"
      using find_present [OF n(2,3) p' p(2)] e(2) he by simp
    let ?m' = "m1\<lparr>entries_map := ?es[p := Some (e\<lparr>val := v\<rparr>)]\<rparr>"
    note upd = table_update [OF n(3) p' p(2), of v]
    have run: "map_set m k v = Some ?m'"
      using m1(1) fnd p(2) by (simp add: map_set_def Let_def)
    have "map_inv ?m'"
      unfolding map_inv_def using upd(1,2) thr cnt m1(4) n(1,2) by auto
    moreover have "lookup ?m' = (lookup m)(k \<mapsto> v)"
      using upd(3) m1(3) e(2) by (simp add: lookup_def)
    moreover have "k \<in> dom (lookup m)" using True m1(3) dom_lookup [of m1] by simp
    ultimately show ?thesis using run m1(5) by simp
  qed
qed

lemma map_get_correct:
  assumes inv: "map_inv m"
  shows "map_get m k = Some (lookup m k)"
proof (cases "count_map m = 0")
  case True
  then have "live (entries_map m) = []" using inv by (simp add: map_inv_def)
  then show ?thesis using True by (simp add: map_get_def lookup_def)
next
  case False
  let ?es = "entries_map m"
  have thr: "max_load_threshold m = capacity_map m div 2"
    and cnt: "count_map m = int (length (live ?es))"
    and le: "count_map m \<le> max_load_threshold m"
    using inv by (simp_all add: map_inv_def)
  have "count_map m < capacity_map m" using False thr cnt le by linarith
  with inv obtain n where n: "3 \<le> n" "capacity_map m = 2 ^ n" "table_ok n ?es"
    "length (live ?es) < 2 ^ n" "length ?es = 2 ^ n"
    by (rule map_inv_ready)
  show ?thesis
  proof (cases "k \<in> key ` set (live ?es)")
    case notin: False
    obtain p where "map_find m k (str_hash k) = Some p" "?es ! p = None"
      using find_absent [OF n(2,3,4) notin, of "str_hash k"] by blast
    moreover have "lookup m k = None" using notin dom_lookup [of m] by blast
    ultimately show ?thesis using False by (simp add: map_get_def)
  next
    case True
    then obtain e where e: "e \<in> set (live ?es)" "key e = k" by auto
    then obtain p where p: "p < length ?es" "?es ! p = Some e"
      by (auto simp: set_live in_set_conv_nth)
    have he: "key_hash e = str_hash k" and dist: "distinct (map key (live ?es))"
      using n(3) e by (simp_all add: table_ok_def)
    have p': "p < 2 ^ n" using p(1) n(5) by simp
    have fnd: "map_find m k (str_hash k) = Some p"
      using find_present [OF n(2,3) p' p(2)] e(2) he by simp
    have "distinct (map fst (map kv (live ?es)))" using dist by (simp add: comp_def)
    then have "map_of (map kv (live ?es)) k = Some (val e)"
      using e by (subst map_of_eq_Some_iff) (auto simp: image_iff)
    then show ?thesis using fnd p(2) False by (simp add: map_get_def lookup_def)
  qed
qed

lemma map_set_keys_correct:
  assumes "map_inv m"
  shows "\<exists>m'. map_set_keys m ks v = Some m' \<and> map_inv m'
           \<and> lookup m' = (\<lambda>k. if k \<in> set ks then Some v else lookup m k)"
  using assms
proof (induction ks arbitrary: m)
  case Nil
  then show ?case by simp
next
  case (Cons k ks)
  from map_set_correct [OF Cons.prems, of k v] obtain m1
    where m1: "map_set m k v = Some m1" "map_inv m1" "lookup m1 = (lookup m)(k \<mapsto> v)" by blast
  from Cons.IH [OF m1(2)] obtain m' where m': "map_set_keys m1 ks v = Some m'" "map_inv m'"
    "lookup m' = (\<lambda>k. if k \<in> set ks then Some v else lookup m1 k)" by blast
  have "lookup m' = (\<lambda>x. if x \<in> set (k # ks) then Some v else lookup m x)"
    using m'(3) m1(3) by auto
  then show ?case using m1(1) m'(1,2) by simp
qed

lemma map_set_list_correct:
  assumes "map_inv m"
  shows "\<exists>m'. map_set_list m kvs = Some m' \<and> map_inv m'
           \<and> lookup m' = lookup m ++ map_of (rev kvs)
           \<and> (distinct (map fst kvs) \<and> fst ` set kvs \<inter> dom (lookup m) = {}
                \<longrightarrow> count_map m' = count_map m + int (length kvs))"
  using assms
proof (induction kvs arbitrary: m)
  case Nil
  then show ?case by simp
next
  case (Cons kv kvs)
  obtain k v where kv: "kv = (k, v)" by (cases kv)
  from map_set_correct [OF Cons.prems, of k v] obtain m1
    where m1: "map_set m k v = Some m1" "map_inv m1" "lookup m1 = (lookup m)(k \<mapsto> v)"
      "count_map m1 = (if k \<in> dom (lookup m) then count_map m else count_map m + 1)" by blast
  from Cons.IH [OF m1(2)] obtain m' where m': "map_set_list m1 kvs = Some m'" "map_inv m'"
    "lookup m' = lookup m1 ++ map_of (rev kvs)"
    "distinct (map fst kvs) \<and> fst ` set kvs \<inter> dom (lookup m1) = {}
       \<longrightarrow> count_map m' = count_map m1 + int (length kvs)" by blast
  have "lookup m' = lookup m ++ map_of (rev (kv # kvs))"
    using m'(3) m1(3) kv by (simp add: map_of_append)
  moreover have "count_map m' = count_map m + int (length (kv # kvs))"
    if "distinct (map fst (kv # kvs))" "fst ` set (kv # kvs) \<inter> dom (lookup m) = {}"
    using that m'(4) m1(3,4) kv by auto
  ultimately show ?case using m1(1) m'(1,2) kv by simp
qed

section \<open>Claims about the hash map\<close>

text \<open>
  C6. Starting from the empty map, any sequence of \<^verbatim>\<open>map_set\<close> calls returns, and then
  \<^verbatim>\<open>map_get\<close> on any key returns the last value stored under it (a miss for a key
  never stored). For \<open>k\<close> distinct keys the count is \<open>k\<close> and each of the \<open>k\<close> reads is a
  hit, whatever \<open>k\<close> is and however many times the table grew.
\<close>

theorem map_set_get_all:
  "\<exists>m. map_set_list map_new kvs = Some m
      \<and> (\<forall>k. map_get m k = Some (map_of (rev kvs) k))
      \<and> (distinct (map fst kvs) \<longrightarrow>
           count_map m = int (length kvs) \<and> (\<forall>(k, v)\<in>set kvs. map_get m k = Some (Some v)))"
proof -
  from map_set_list_correct [OF map_inv_new, of kvs] obtain m
    where m: "map_set_list map_new kvs = Some m" "map_inv m"
      "lookup m = lookup map_new ++ map_of (rev kvs)"
      "distinct (map fst kvs) \<and> fst ` set kvs \<inter> dom (lookup (map_new :: 'a Map)) = {}
         \<longrightarrow> count_map m = count_map (map_new :: 'a Map) + int (length kvs)" by blast
  have lk: "lookup m = map_of (rev kvs)" using m(3) by (simp add: lookup_new)
  have get: "map_get m k = Some (map_of (rev kvs) k)" for k
    using map_get_correct [OF m(2), of k] lk by simp
  have "count_map m = int (length kvs) \<and> (\<forall>(k, v)\<in>set kvs. map_get m k = Some (Some v))"
    if d: "distinct (map fst kvs)"
  proof -
    have "distinct (map fst (rev kvs))" using d by (simp add: rev_map [symmetric])
    then have "map_of (rev kvs) k = Some v" if "(k, v) \<in> set kvs" for k v
      using that by simp
    then have hits: "\<forall>(k, v)\<in>set kvs. map_get m k = Some (Some v)" using get by auto
    have "dom (lookup (map_new :: 'a Map)) = {}" by (simp add: lookup_new)
    moreover have "count_map (map_new :: 'a Map) = 0" by (simp add: map_new_def)
    ultimately have "count_map m = int (length kvs)" using m(4) d by simp
    then show ?thesis using hits by simp
  qed
  then show ?thesis using m(1) get by blast
qed

text \<open>
  Nine distinct keys: the table is allocated with 8 slots at the first insertion and
  grows to 16 and to 32 slots on the way; the nine reads are hits.
\<close>

theorem map_set_get_all_witness:
  "distinct (map fst nine_keys)
   \<and> map_option capacity_map (map_set_list map_new nine_keys) = Some 32
   \<and> (\<exists>m. map_set_list map_new nine_keys = Some m \<and> count_map m = 9
          \<and> (\<forall>(k, v)\<in>set nine_keys. map_get m k = Some (Some v)))"
proof -
  have d: "distinct (map fst nine_keys)" by (simp add: nine_keys_def)
  have c: "map_option capacity_map (map_set_list map_new nine_keys) = Some 32"
    by code_simp
  have "length nine_keys = 9" by (simp add: nine_keys_def)
  then show ?thesis using d c map_set_get_all [of nine_keys] by auto
qed

text \<open>
  C7. The load factor is not kept strictly below 0.5. \<^verbatim>\<open>map_set\<close> grows the table when
  \<open>count\<close> equals the threshold before it inserts, so an insertion can bring \<open>count\<close> up
  to the threshold: after four distinct keys the table of 8 slots holds 4 entries,
  and \<open>count < capacity * 0.5\<close> is false.
\<close>

theorem load_factor_reaches_half:
  "map_option count_map (map_set_list map_new four_keys) = Some 4
   \<and> map_option capacity_map (map_set_list map_new four_keys) = Some 8
   \<and> map_option (\<lambda>m. 2 * count_map m < capacity_map m) (map_set_list map_new four_keys)
       = Some False"
  by code_simp

section \<open>The parsing loop\<close>

subsection \<open>Shape of an iteration\<close>

lemma loop_result_cases:
  assumes "(if c then Option.bind nx (\<lambda>(arg, s1). Option.bind (X arg s1) (\<lambda>r. case r of
               Returns (p2, s2) \<Rightarrow> f p2 s2
             | Fatal e \<Rightarrow> Some (Fatal e)
             | Exits t \<Rightarrow> Some (Exits t)))
           else Some (Returns (p0, s0))) = Some y"
  shows "(\<not> c \<and> y = Returns (p0, s0)) \<or> (\<exists>p2 s2. f p2 s2 = Some y)
           \<or> (\<exists>e. y = Fatal e) \<or> (\<exists>t. y = Exits t)"
proof (cases c)
  case False
  then show ?thesis using assms by simp
next
  case True
  then obtain arg s1 r where r: "X arg s1 = Some r"
    "(case r of Returns (p2, s2) \<Rightarrow> f p2 s2 | Fatal e \<Rightarrow> Some (Fatal e)
      | Exits t \<Rightarrow> Some (Exits t)) = Some y"
    using assms by (auto simp: bind_eq_Some_conv)
  show ?thesis
  proof (cases r)
    case (Returns pr)
    then show ?thesis using r(2) by (cases pr) auto
  next
    case (Fatal e)
    then show ?thesis using r(2) by auto
  next
    case (Exits t)
    then show ?thesis using r(2) by auto
  qed
qed

lemma ap_parse_loop_exhausts:
  assumes "ap_parse_loop strtod call parser stream is_first_arg = Some (Returns (parser', rest))"
  shows "\<not> argstream_has_next rest"
proof -
  have "\<forall>parser' rest. y = Returns (parser', rest) \<longrightarrow> \<not> argstream_has_next rest"
    if run: "ap_parse_loop strtod call parser stream is_first_arg = Some y" for y
    apply (rule ap_parse_loop.raw_induct
      [where P = "\<lambda>_ _ _ _ _ y. \<forall>parser' rest. y = Returns (parser', rest) \<longrightarrow> \<not> argstream_has_next rest",
        OF _ run])
    subgoal premises prems for f strtod call parser stream is_first_arg y
      using loop_result_cases [OF prems(2)] prems(1) by auto
    done
  then show ?thesis using assms by blast
qed

lemma and_then_Returns:
  "and_then x f = Some (Returns b) \<longleftrightarrow> (\<exists>a. x = Some (Returns a) \<and> f a = Some (Returns b))"
proof (cases x)
  case None
  then show ?thesis by (simp add: and_then_def)
next
  case (Some r)
  then show ?thesis by (cases r) (simp_all add: and_then_def)
qed

lemma ap_parse_loop_done:
  "\<not> argstream_has_next stream \<Longrightarrow>
     ap_parse_loop strtod call parser stream is_first_arg = Some (Returns (parser, stream))"
  by (subst ap_parse_loop.simps) simp

lemma take2_dashes: "take 2 arg = ''--'' \<Longrightarrow> arg \<noteq> [] \<and> hd arg = CHR ''-''"
  by (cases arg) auto

lemma bind_and_then_pair:
  "Option.bind (and_then x (\<lambda>p. Some (Returns (p, s)))) (\<lambda>r. case r of
       Returns (p, s) \<Rightarrow> F p s
     | Fatal e \<Rightarrow> Some (Fatal e)
     | Exits t \<Rightarrow> Some (Exits t))
   = and_then x (\<lambda>p. F p s)"
proof (cases x)
  case None
  then show ?thesis by (simp add: and_then_def)
next
  case (Some r)
  then show ?thesis by (cases r) (simp_all add: and_then_def)
qed

lemma command_step:
  assumes nxt: "argstream_has_next stream" "argstream_next stream = Some (arg, stream')"
    and plain: "arg = [] \<or> hd arg \<noteq> CHR ''-''"
    and cmd: "map_get (command_map (fields parser)) arg = Some (Some cmd_ptr)"
    and child: "deref_cmd parser cmd_ptr = Some child"
  shows "ap_parse_loop strtod call parser stream True =
           and_then (ap_parse_loop strtod call child stream' True) (\<lambda>(child, rest).
             and_then (ap_run_callback call arg child) (\<lambda>child.
               Some (Returns
                 (store_cmd
                    (assign (\<lambda>d. d\<lparr>cmd_name := Some arg, cmd_parser := Some cmd_ptr\<rparr>) parser)
                    cmd_ptr child,
                  rest))))"
proof -
  have a1: "arg \<noteq> ''--''" and a2: "take 2 arg \<noteq> ''--''" and a3: "\<not> (arg \<noteq> [] \<and> hd arg = CHR ''-'')"
    using plain take2_dashes [of arg] by auto
  have unfold: "ap_parse_loop strtod call parser stream True =
      Option.bind
        (Option.bind (ap_parse_loop strtod call child stream' True) (\<lambda>r.
           case r of
             Returns (child, stream) \<Rightarrow>
               and_then (ap_run_callback call arg child) (\<lambda>child.
                 Some (Returns
                   (store_cmd
                      (assign (\<lambda>d. d\<lparr>cmd_name := Some arg, cmd_parser := Some cmd_ptr\<rparr>) parser)
                      cmd_ptr child,
                    stream)))
           | Fatal e \<Rightarrow> Some (Fatal e)
           | Exits t \<Rightarrow> Some (Exits t)))
        (\<lambda>r. case r of
           Returns (parser, stream) \<Rightarrow> ap_parse_loop strtod call parser stream False
         | Fatal e \<Rightarrow> Some (Fatal e)
         | Exits t \<Rightarrow> Some (Exits t))"
    by (subst ap_parse_loop.simps) (simp add: nxt a1 a2 a3 cmd child)
  show ?thesis
  proof (cases "ap_parse_loop strtod call child stream' True")
    case None
    then show ?thesis unfolding unfold by (simp add: and_then_def)
  next
    case (Some r)
    show ?thesis
    proof (cases r)
      case (Returns pr)
      obtain child' rest where pr: "pr = (child', rest)" by (cases pr)
      have ex: "\<not> argstream_has_next rest"
        using ap_parse_loop_exhausts [of strtod call child stream' True child' rest] Some Returns pr
        by simp
      show ?thesis
      proof (cases "ap_run_callback call arg child'")
        case None
        then show ?thesis unfolding unfold using Some Returns pr by (simp add: and_then_def)
      next
        case cb: (Some r2)
        show ?thesis
          unfolding unfold using Some Returns pr cb ex
          by (cases r2) (simp_all add: and_then_def ap_parse_loop_done)
      qed
    next
      case (Fatal e)
      then show ?thesis unfolding unfold using Some by (simp add: and_then_def)
    next
      case (Exits t)
      then show ?thesis unfolding unfold using Some by (simp add: and_then_def)
    qed
  qed
qed

lemma short_equals_step:
  assumes nxt: "argstream_has_next stream" "argstream_next stream = Some (arg, stream')"
    and a: "arg \<noteq> ''--''" "take 2 arg \<noteq> ''--''" "arg \<noteq> []" "hd arg = CHR ''-''"
      "length arg \<noteq> Suc 0" "\<not> isdigit (arg ! Suc 0)" "CHR ''='' \<in> set arg"
  shows "ap_parse_loop strtod call parser stream is_first_arg =
           and_then (ap_handle_equals_opt strtod parser ''-'' (drop 1 arg))
             (\<lambda>parser. ap_parse_loop strtod call parser stream' False)"
proof -
  have "ap_parse_loop strtod call parser stream is_first_arg =
          Option.bind
            (and_then (ap_handle_equals_opt strtod parser ''-'' (drop 1 arg))
               (\<lambda>parser. Some (Returns (parser, stream'))))
            (\<lambda>r. case r of
               Returns (parser, stream) \<Rightarrow> ap_parse_loop strtod call parser stream False
             | Fatal e \<Rightarrow> Some (Fatal e)
             | Exits t \<Rightarrow> Some (Exits t))"
    by (subst ap_parse_loop.simps) (simp add: nxt a)
  then show ?thesis by (simp add: bind_and_then_pair)
qed

subsection \<open>Positional arguments and the stream\<close>

lemma foldl_vec_add:
  "entries_vec (foldl vec_add v xs) = entries_vec v @ xs
   \<and> count_vec (foldl vec_add v xs) = count_vec v + int (length xs)"
  by (induction xs arbitrary: v) (simp_all add: vec_add_def Let_def)

lemma stream_ok_next:
  assumes "stream_ok stream" "argstream_has_next stream"
  shows "0 \<le> index_stream stream" "nat (index_stream stream) < length (args stream)"
    "stream_ok (stream\<lparr>index_stream := index_stream stream + 1\<rparr>)"
    "nat (index_stream stream + 1) = Suc (nat (index_stream stream))"
  using assms by (auto simp: argstream_has_next_def stream_ok_def nat_less_iff)

lemma take_rest_all:
  assumes "stream_ok stream"
  shows "take_rest vec stream =
           Some (foldl vec_add vec (drop (nat (index_stream stream)) (args stream)),
                 stream\<lparr>index_stream := count_stream stream\<rparr>)"
  using assms
proof (induction vec stream rule: take_rest.induct)
  case (1 vec stream)
  show ?case
  proof (cases "argstream_has_next stream")
    case False
    then have "index_stream stream = count_stream stream"
      using "1.prems" by (simp add: argstream_has_next_def stream_ok_def)
    then show ?thesis
      using False "1.prems" by (subst take_rest.simps) (simp add: stream_ok_def)
  next
    case True
    let ?i = "nat (index_stream stream)"
    note nx = stream_ok_next [OF "1.prems" True]
    have rng: "0 \<le> index_stream stream" "?i < length (args stream)" using nx by simp_all
    have ok': "stream_ok (stream\<lparr>index_stream := index_stream stream + 1\<rparr>)" using nx by simp
    have "drop ?i (args stream) = args stream ! ?i # drop (Suc ?i) (args stream)"
      using rng(2) by (simp add: Cons_nth_drop_Suc)
    moreover have "nat (index_stream stream + 1) = Suc ?i" using rng(1) by simp
    ultimately show ?thesis
      using "1.IH" [OF True _ ok'] True rng by (subst take_rest.simps) simp
  qed
qed

subsection \<open>The equals form\<close>

lemma split_at_equals:
  assumes "CHR ''='' \<notin> set name"
  shows "takeWhile (\<lambda>c. c \<noteq> CHR ''='') (name @ CHR ''='' # value) = name"
    and "tl (dropWhile (\<lambda>c. c \<noteq> CHR ''='') (name @ CHR ''='' # value)) = value"
proof -
  have "\<forall>c\<in>set name. c \<noteq> CHR ''=''" using assms by auto
  then show "takeWhile (\<lambda>c. c \<noteq> CHR ''='') (name @ CHR ''='' # value) = name"
    and "tl (dropWhile (\<lambda>c. c \<noteq> CHR ''='') (name @ CHR ''='' # value)) = value"
    by (simp_all add: takeWhile_append2 dropWhile_append2)
qed

lemma equals_opt_unfold:
  assumes "CHR ''='' \<notin> set name"
  shows "ap_handle_equals_opt strtod parser prefix (name @ CHR ''='' # value) =
     Option.bind (map_get (option_map (fields parser)) name) (\<lambda>found.
       case found of
         None \<Rightarrow> Some (Fatal (prefix @ name @ '' is not a recognised option name''))
       | Some ptr \<Rightarrow>
           Option.bind (deref_opt parser ptr) (\<lambda>option.
             if type_opt option = OPT_FLAG
             then Some (Fatal (prefix @ name @ '' is not a recognised option name''))
             else if value = []
             then Some (Fatal (''missing value for the '' @ prefix @ name @ '' option''))
             else and_then (Some (option_try_set strtod option value)) (\<lambda>option.
                    Some (Returns (store_opt parser ptr option)))))"
  using split_at_equals [OF assms, of "value"]
  by (simp add: ap_handle_equals_opt_def err_def Let_def cong: option.case_cong if_cong)

subsection \<open>Option values\<close>





subsection \<open>Alias strings\<close>

lemma map_set_splitkey_correct:
  assumes "map_inv m"
  shows "\<exists>m'. map_set_splitkey m keys v = Some m' \<and> map_inv m'
           \<and> (\<forall>w. map_get m' w = Some (if w \<in> set (strtok_all keys) then Some v else lookup m w))"
proof -
  from map_set_keys_correct [OF assms, of "strtok_all keys" v] obtain m'
    where m': "map_set_keys m (strtok_all keys) v = Some m'" "map_inv m'"
      "lookup m' = (\<lambda>k. if k \<in> set (strtok_all keys) then Some v else lookup m k)" by blast
  have "map_get m' w = Some (if w \<in> set (strtok_all keys) then Some v else lookup m w)" for w
    using map_get_correct [OF m'(2), of w] m'(3) by simp
  then show ?thesis using m'(1,2) by (simp add: map_set_splitkey_def)
qed

subsection \<open>Options over a run of the loop\<close>

lemma extends_opt_refl: "extends_opt opt opt"
  by (simp add: extends_opt_def)

lemma extends_opt_trans:
  assumes "extends_opt a b" "extends_opt b c"
  shows "extends_opt a c"
proof -
  from assms(1) obtain vs where vs: "values_opt b = values_opt a @ vs"
    "\<forall>v\<in>set vs. member_of (type_opt a) v"
    "type_opt a \<noteq> OPT_FLAG \<longrightarrow> count_opt b = count_opt a + int (length vs)"
    and ab: "type_opt b = type_opt a" "fallback b = fallback a" "count_opt a \<le> count_opt b"
    unfolding extends_opt_def by blast
  from assms(2) obtain ws where ws: "values_opt c = values_opt b @ ws"
    "\<forall>v\<in>set ws. member_of (type_opt b) v"
    "type_opt b \<noteq> OPT_FLAG \<longrightarrow> count_opt c = count_opt b + int (length ws)"
    and bc: "type_opt c = type_opt b" "fallback c = fallback b" "count_opt b \<le> count_opt c"
    unfolding extends_opt_def by blast
  have "values_opt c = values_opt a @ (vs @ ws)" using vs(1) ws(1) by simp
  moreover have "\<forall>v\<in>set (vs @ ws). member_of (type_opt a) v" using vs(2) ws(2) ab(1) by auto
  moreover have "type_opt a \<noteq> OPT_FLAG \<longrightarrow> count_opt c = count_opt a + int (length (vs @ ws))"
    using vs(3) ws(3) ab(1) by simp
  ultimately show ?thesis
    unfolding extends_opt_def using ab bc by (intro conjI exI [of _ "vs @ ws"]) simp_all
qed

lemma options_extend_refl: "options_extend p p"
  by (simp add: options_extend_def extends_opt_refl)

lemma options_extend_trans:
  assumes "options_extend a b" "options_extend b c"
  shows "options_extend a c"
  using assms unfolding options_extend_def
  by (auto intro: extends_opt_trans)

lemma try_set_extends:
  assumes "option_try_set strtod opt a = Returns opt'"
  shows "extends_opt opt opt'"
proof (cases "type_opt opt")
  case OPT_FLAG
  then show ?thesis using assms by (auto simp: option_try_set_def extends_opt_refl)
next
  case OPT_STR
  then have "opt' = option_append_value opt (Str_val (Some a))"
    using assms by (simp add: option_try_set_def)
  then show ?thesis using OPT_STR
    by (simp add: extends_opt_def option_append_value_def Let_def member_of_def)
next
  case OPT_INT
  then obtain v where "opt' = option_append_value opt (Int_val v)"
    using assms by (auto simp: option_try_set_def split: outcome.splits)
  then show ?thesis using OPT_INT
    by (simp add: extends_opt_def option_append_value_def Let_def member_of_def)
next
  case OPT_DBL
  then obtain v where "opt' = option_append_value opt (Dbl_val v)"
    using assms by (auto simp: option_try_set_def split: outcome.splits)
  then show ?thesis using OPT_DBL
    by (simp add: extends_opt_def option_append_value_def Let_def member_of_def)
qed

lemma flag_extends:
  "type_opt opt = OPT_FLAG \<Longrightarrow> extends_opt opt (opt\<lparr>count_opt := count_opt opt + 1\<rparr>)"
  by (simp add: extends_opt_def)

lemma store_opt_extends:
  assumes "deref_opt parser ptr = Some opt" "extends_opt opt opt'"
  shows "options_extend parser (store_opt parser ptr opt')"
proof -
  have ptr: "ptr < length (option_heap (fields parser))"
    "option_heap (fields parser) ! ptr = opt"
    using assms(1) by (auto simp: deref_opt_def split: if_splits)
  have "extends_opt (option_heap (fields parser) ! i) ((option_heap (fields parser))[ptr := opt'] ! i)"
    if "i < length (option_heap (fields parser))" for i
    using that ptr assms(2) by (cases "i = ptr") (simp_all add: extends_opt_refl)
  then show ?thesis by (simp add: options_extend_def store_opt_def assign_def)
qed

lemma assign_extends:
  assumes "option_map (g (fields parser)) = option_map (fields parser)"
    "option_heap (g (fields parser)) = option_heap (fields parser)"
  shows "options_extend parser (assign g parser)"
  using assms by (simp add: options_extend_def assign_def extends_opt_refl)

lemma store_cmd_extends:
  "options_extend parser
     (store_cmd (assign (\<lambda>d. d\<lparr>cmd_name := n, cmd_parser := c\<rparr>) parser) ptr child)"
  by (simp add: options_extend_def store_cmd_def assign_def extends_opt_refl)

lemma equals_opt_extends:
  assumes "ap_handle_equals_opt strtod parser prefix arg = Some (Returns p')"
  shows "options_extend parser p'"
proof -
  from assms obtain ptr opt opt' where
    "deref_opt parser ptr = Some opt" "option_try_set strtod opt (tl (dropWhile (\<lambda>c. c \<noteq> CHR ''='') arg)) = Returns opt'"
    "p' = store_opt parser ptr opt'"
    by (auto simp: ap_handle_equals_opt_def Let_def err_def bind_eq_Some_conv and_then_Returns
        split: if_splits option.splits)
  then show ?thesis using store_opt_extends try_set_extends by blast
qed

lemma long_opt_extends:
  assumes "ap_handle_long_opt strtod parser arg stream = Some (Returns (p', s'))"
  shows "options_extend parser p'"
proof -
  from assms obtain ptr opt opt' where
    "deref_opt parser ptr = Some opt" "extends_opt opt opt'" "p' = store_opt parser ptr opt'"
    by (auto simp: ap_handle_long_opt_def err_def bind_eq_Some_conv and_then_Returns
        split: if_splits option.splits intro: flag_extends try_set_extends)
  then show ?thesis using store_opt_extends by blast
qed

lemma short_chars_Cons_Returns:
  assumes run: "ap_handle_short_chars strtod arg (c # cs) parser stream = Some (Returns r)"
  obtains ptr opt opt' t where "map_get (option_map (fields parser)) [c] = Some (Some ptr)"
    "deref_opt parser ptr = Some opt" "extends_opt opt opt'"
    "ap_handle_short_chars strtod arg cs (store_opt parser ptr opt') t = Some (Returns r)"
proof -
  from run obtain found where f: "map_get (option_map (fields parser)) [c] = Some found"
    by (cases "map_get (option_map (fields parser)) [c]") simp_all
  show thesis
  proof (cases found)
    case None
    then show ?thesis using run f by (simp add: err_def split: if_splits)
  next
    case (Some ptr)
    from run f Some obtain opt where o: "deref_opt parser ptr = Some opt"
      by (cases "deref_opt parser ptr") simp_all
    show ?thesis
    proof (cases "type_opt opt = OPT_FLAG")
      case True
      then have "ap_handle_short_chars strtod arg cs
          (store_opt parser ptr (opt\<lparr>count_opt := count_opt opt + 1\<rparr>)) stream = Some (Returns r)"
        using run f Some o by simp
      moreover have "map_get (option_map (fields parser)) [c] = Some (Some ptr)"
        using f Some by simp
      ultimately show ?thesis using that o flag_extends [OF True] by blast
    next
      case False
      show ?thesis
      proof (cases "argstream_has_next stream")
        case nx: False
        then show ?thesis using run f Some o False by (simp add: err_def split: if_splits)
      next
        case nx: True
        have eq: "Option.bind (argstream_next stream) (\<lambda>(a, stream).
                    and_then (Some (option_try_set strtod opt a)) (\<lambda>option.
                      ap_handle_short_chars strtod arg cs (store_opt parser ptr option) stream))
                  = Some (Returns r)"
          using run f Some o False nx by simp
        show ?thesis
        proof (cases "argstream_next stream")
          case None
          then show ?thesis using eq by simp
        next
          case at: (Some x)
          obtain a t where x: "x = (a, t)" by (cases x)
          have "and_then (Some (option_try_set strtod opt a)) (\<lambda>option.
                  ap_handle_short_chars strtod arg cs (store_opt parser ptr option) t)
                = Some (Returns r)"
            using eq at x by simp
          then obtain opt' where
            ts: "option_try_set strtod opt a = Returns opt'"
            "ap_handle_short_chars strtod arg cs (store_opt parser ptr opt') t = Some (Returns r)"
            unfolding and_then_Returns by auto
          have m: "map_get (option_map (fields parser)) [c] = Some (Some ptr)"
            using f Some by simp
          show ?thesis by (rule that [OF m o try_set_extends [OF ts(1)] ts(2)])
        qed
      qed
    qed
  qed
qed


lemma short_chars_extends:
  "ap_handle_short_chars strtod arg cs parser stream = Some (Returns (p', s')) \<Longrightarrow>
     options_extend parser p'"
proof (induction cs arbitrary: parser stream)
  case Nil
  then show ?case by (simp add: options_extend_refl)
next
  case (Cons c cs)
  show ?case
  proof (rule short_chars_Cons_Returns [OF Cons.prems])
    fix ptr opt opt' t
    assume st: "deref_opt parser ptr = Some opt" "extends_opt opt opt'"
      "ap_handle_short_chars strtod arg cs (store_opt parser ptr opt') t = Some (Returns (p', s'))"
    show "options_extend parser p'"
      by (rule options_extend_trans [OF store_opt_extends [OF st(1,2)] Cons.IH [OF st(3)]])
  qed
qed

lemma help_command_leaves: "ap_help_command parser stream \<noteq> Some (Returns r)"
  by (auto simp: ap_help_command_def err_def bind_eq_Some_conv split: if_splits option.splits)

lemma loop_Returns_cases:
  assumes "(if c then Option.bind nx (\<lambda>(arg, s1). Option.bind (X arg s1) (\<lambda>r. case r of
               Returns (p2, s2) \<Rightarrow> f p2 s2
             | Fatal e \<Rightarrow> Some (Fatal e)
             | Exits t \<Rightarrow> Some (Exits t)))
           else Some (Returns (p0, s0))) = Some (Returns (p', s'))"
  shows "(\<not> c \<and> p' = p0 \<and> s' = s0)
         \<or> (\<exists>arg s1 p2 s2. X arg s1 = Some (Returns (p2, s2))
               \<and> f p2 s2 = Some (Returns (p', s')))"
proof (cases c)
  case False
  then show ?thesis using assms by simp
next
  case True
  then obtain arg s1 r where r: "X arg s1 = Some r"
    "(case r of Returns (p2, s2) \<Rightarrow> f p2 s2 | Fatal e \<Rightarrow> Some (Fatal e)
      | Exits t \<Rightarrow> Some (Exits t)) = Some (Returns (p', s'))"
    using assms by (auto simp: bind_eq_Some_conv)
  show ?thesis
  proof (cases r)
    case (Returns pr)
    then show ?thesis using r by (cases pr) auto
  next
    case (Fatal e)
    then show ?thesis using r(2) by simp
  next
    case (Exits t)
    then show ?thesis using r(2) by simp
  qed
qed

lemma iteration_extends:
  assumes it:
    "(if arg = ''--'' then
        Option.bind (take_rest (positional_args (fields parser)) stream) (\<lambda>(vec, stream).
          Some (Returns (assign (\<lambda>d. d\<lparr>positional_args := vec\<rparr>) parser, stream)))
      else if take 2 arg = ''--'' then
        (if CHR ''='' \<in> set arg then
           and_then (ap_handle_equals_opt strtod parser ''--'' (drop 2 arg)) (\<lambda>parser.
             Some (Returns (parser, stream)))
         else ap_handle_long_opt strtod parser (drop 2 arg) stream)
      else if arg \<noteq> [] \<and> hd arg = CHR ''-'' then
        (if length arg = 1 \<or> isdigit (arg ! 1) then
           Some (Returns
             (assign (\<lambda>d. d\<lparr>positional_args := vec_add (positional_args d) arg\<rparr>) parser,
              stream))
         else if CHR ''='' \<in> set arg then
           and_then (ap_handle_equals_opt strtod parser ''-'' (drop 1 arg)) (\<lambda>parser.
             Some (Returns (parser, stream)))
         else ap_handle_short_opt strtod parser (drop 1 arg) stream)
      else
        Option.bind
          (if is_first_arg then map_get (command_map (fields parser)) arg else Some None)
          (\<lambda>found.
            case found of
              Some cmd_ptr \<Rightarrow>
                Option.bind (deref_cmd parser cmd_ptr) (\<lambda>child.
                  Option.bind (g child stream) (\<lambda>r.
                    case r of
                      Returns (child, stream) \<Rightarrow>
                        and_then (ap_run_callback call arg child) (\<lambda>child.
                          Some (Returns
                            (store_cmd
                               (assign (\<lambda>d. d\<lparr>cmd_name := Some arg,
                                                cmd_parser := Some cmd_ptr\<rparr>) parser)
                               cmd_ptr child,
                             stream)))
                    | Fatal e \<Rightarrow> Some (Fatal e)
                    | Exits t \<Rightarrow> Some (Exits t)))
            | None \<Rightarrow>
                if is_first_arg \<and> cmd_help (fields parser) \<and> arg = ''help''
                then ap_help_command parser stream
                else Some (Returns
                  (assign (\<lambda>d. d\<lparr>positional_args := vec_add (positional_args d) arg\<rparr>)
                     parser,
                   stream)))) = Some (Returns (p2, s2))"
    (is "(if _ then ?A else if _ then (if _ then ?B else ?C)
          else if _ then (if _ then ?D else if _ then ?E else ?F) else ?G) = _")
  shows "options_extend parser p2"
proof -
  consider (sep) "arg = ''--''"
    | (long_eq) "arg \<noteq> ''--''" "take 2 arg = ''--''" "CHR ''='' \<in> set arg"
    | (long) "arg \<noteq> ''--''" "take 2 arg = ''--''" "CHR ''='' \<notin> set arg"
    | (dash) "arg \<noteq> ''--''" "take 2 arg \<noteq> ''--''" "arg \<noteq> [] \<and> hd arg = CHR ''-''"
        "length arg = 1 \<or> isdigit (arg ! 1)"
    | (short_eq) "arg \<noteq> ''--''" "take 2 arg \<noteq> ''--''" "arg \<noteq> [] \<and> hd arg = CHR ''-''"
        "\<not> (length arg = 1 \<or> isdigit (arg ! 1))" "CHR ''='' \<in> set arg"
    | (short) "arg \<noteq> ''--''" "take 2 arg \<noteq> ''--''" "arg \<noteq> [] \<and> hd arg = CHR ''-''"
        "\<not> (length arg = 1 \<or> isdigit (arg ! 1))" "CHR ''='' \<notin> set arg"
    | (plain) "arg \<noteq> ''--''" "take 2 arg \<noteq> ''--''" "\<not> (arg \<noteq> [] \<and> hd arg = CHR ''-'')"
    by blast
  then show ?thesis
  proof cases
    case sep
    with it have "?A = Some (Returns (p2, s2))" by simp
    then obtain vec where "p2 = assign (\<lambda>d. d\<lparr>positional_args := vec\<rparr>) parser"
      by (auto simp: bind_eq_Some_conv)
    then show ?thesis by (simp add: assign_extends)
  next
    case long_eq
    with it have "?B = Some (Returns (p2, s2))" by simp
    then have "ap_handle_equals_opt strtod parser ''--'' (drop 2 arg) = Some (Returns p2)"
      unfolding and_then_Returns by simp
    then show ?thesis by (rule equals_opt_extends)
  next
    case long
    with it have "?C = Some (Returns (p2, s2))" by simp
    then show ?thesis by (rule long_opt_extends)
  next
    case dash
    with it have "?D = Some (Returns (p2, s2))" by simp
    then show ?thesis by (auto simp: assign_extends)
  next
    case short_eq
    with it have "?E = Some (Returns (p2, s2))" by simp
    then have "ap_handle_equals_opt strtod parser ''-'' (drop 1 arg) = Some (Returns p2)"
      unfolding and_then_Returns by simp
    then show ?thesis by (rule equals_opt_extends)
  next
    case short
    with it have "?F = Some (Returns (p2, s2))" by simp
    then show ?thesis unfolding ap_handle_short_opt_def by (rule short_chars_extends)
  next
    case plain
    with it have G: "?G = Some (Returns (p2, s2))" by simp
    then obtain found where f: "(if is_first_arg then map_get (command_map (fields parser)) arg
        else Some None) = Some found"
      by (auto simp only: bind_eq_Some_conv)
    show ?thesis
    proof (cases found)
      case None
      have "ap_help_command parser stream \<noteq> Some (Returns (p2, s2))"
        by (rule help_command_leaves)
      then have "p2 = assign (\<lambda>d. d\<lparr>positional_args := vec_add (positional_args d) arg\<rparr>) parser"
        using G None unfolding f by (simp split: if_splits)
      then show ?thesis by (simp add: assign_extends)
    next
      case (Some cmd_ptr)
      from G Some obtain r where
        r: "(case r of
               Returns (child, stream) \<Rightarrow>
                 and_then (ap_run_callback call arg child) (\<lambda>child.
                   Some (Returns
                     (store_cmd
                        (assign (\<lambda>d. d\<lparr>cmd_name := Some arg,
                                         cmd_parser := Some cmd_ptr\<rparr>) parser)
                        cmd_ptr child,
                      stream)))
             | Fatal e \<Rightarrow> Some (Fatal e)
             | Exits t \<Rightarrow> Some (Exits t)) = Some (Returns (p2, s2))"
        unfolding f by (auto simp: bind_eq_Some_conv)
      show ?thesis
      proof (cases r)
        case (Returns pr)
        obtain c1 s1 where "pr = (c1, s1)" by (cases pr)
        with r Returns have "\<exists>child. p2 = store_cmd
              (assign (\<lambda>d. d\<lparr>cmd_name := Some arg, cmd_parser := Some cmd_ptr\<rparr>) parser)
              cmd_ptr child"
          by (auto simp: and_then_Returns)
        then show ?thesis using store_cmd_extends by blast
      next
        case (Fatal e)
        then show ?thesis using r by simp
      next
        case (Exits t)
        then show ?thesis using r by simp
      qed
    qed
  qed
qed

lemma loop_step_rule:
  assumes body: "(if c then Option.bind nx (\<lambda>(arg, s1). Option.bind (X arg s1) (\<lambda>r. case r of
               Returns (p2, s2) \<Rightarrow> f p2 s2
             | Fatal e \<Rightarrow> Some (Fatal e)
             | Exits t \<Rightarrow> Some (Exits t)))
           else Some (Returns (p0, s0))) = Some (Returns (p', s'))"
    and chain: "\<And>arg s1 p2 s2. X arg s1 = Some (Returns (p2, s2)) \<Longrightarrow> R p0 p2"
    and ih: "\<And>p2 s2. f p2 s2 = Some (Returns (p', s')) \<Longrightarrow> R p2 p'"
    and refl: "R p0 p0"
    and trans: "\<And>a b c. R a b \<Longrightarrow> R b c \<Longrightarrow> R a c"
  shows "R p0 p'"
  using loop_Returns_cases [OF body] chain ih refl trans by blast

lemma ap_parse_loop_extends:
  assumes "ap_parse_loop strtod call parser stream is_first_arg = Some (Returns (parser', rest))"
  shows "options_extend parser parser'"
proof -
  have "\<forall>parser' rest. y = Returns (parser', rest) \<longrightarrow> options_extend parser parser'"
    if run: "ap_parse_loop strtod call parser stream is_first_arg = Some y" for y
    apply (rule ap_parse_loop.raw_induct
      [where P = "\<lambda>_ _ parser _ _ y. \<forall>parser' rest. y = Returns (parser', rest) \<longrightarrow>
                    options_extend parser parser'", OF _ run])
    subgoal premises prems for f strtod call parser stream is_first_arg y
    proof (intro allI impI)
      fix parser' rest
      assume y: "y = Returns (parser', rest)"
      show "options_extend parser parser'"
      proof (rule loop_step_rule [where R = options_extend, OF prems(2) [unfolded y]])
        show "options_extend p2 parser'"
          if "f strtod call p2 s2 False = Some (Returns (parser', rest))" for p2 s2
          using prems(1) [OF that] by simp
        show "options_extend parser parser" by (rule options_extend_refl)
        show "options_extend a c" if "options_extend a b" "options_extend b c" for a b c
          using that by (rule options_extend_trans)
      qed (erule iteration_extends)
    qed
    done
  then show ?thesis using assms by blast
qed

subsection \<open>Occurrences of an option\<close>

lemma next_args_Cons:
  assumes ok: "stream_ok stream" and n: "next_args stream = tok # after"
  shows "argstream_has_next stream"
    and "argstream_next stream = Some (tok, stream\<lparr>index_stream := index_stream stream + 1\<rparr>)"
    and "stream_ok (stream\<lparr>index_stream := index_stream stream + 1\<rparr>)"
    and "next_args (stream\<lparr>index_stream := index_stream stream + 1\<rparr>) = after"
proof -
  let ?i = "nat (index_stream stream)"
  have i: "?i < length (args stream)" using n unfolding next_args_def
    by (cases "?i < length (args stream)") simp_all
  have tok: "args stream ! ?i = tok" and after: "drop (Suc ?i) (args stream) = after"
    using n i unfolding next_args_def by (simp_all add: Cons_nth_drop_Suc [symmetric])
  show hn: "argstream_has_next stream"
    using ok i by (simp add: stream_ok_def argstream_has_next_def)
  note nx = stream_ok_next [OF ok hn]
  show "argstream_next stream = Some (tok, stream\<lparr>index_stream := index_stream stream + 1\<rparr>)"
    using nx(1) i tok by (simp add: argstream_next_def)
  show "stream_ok (stream\<lparr>index_stream := index_stream stream + 1\<rparr>)" by (rule nx(3))
  show "next_args (stream\<lparr>index_stream := index_stream stream + 1\<rparr>) = after"
    using after nx(4) by (simp add: next_args_def)
qed


lemma option_token_tests:
  assumes "option_token tok name"
  shows "tok \<noteq> ''--''" and "CHR ''='' \<notin> set tok"
    and "take 2 tok = ''--'' \<Longrightarrow> drop 2 tok = name"
    and "take 2 tok \<noteq> ''--'' \<Longrightarrow>
           tok \<noteq> [] \<and> hd tok = CHR ''-'' \<and> length tok \<noteq> 1 \<and> \<not> isdigit (tok ! 1)
           \<and> drop 1 tok = name \<and> (\<exists>c. name = [c])"
proof -
  from assms consider (long) "tok = ''--'' @ name" "name \<noteq> []" "CHR ''='' \<notin> set name"
    | (short) c where "tok = [CHR ''-'', c]" "name = [c]" "\<not> isdigit c" "c \<noteq> CHR ''-''"
        "c \<noteq> CHR ''=''"
    unfolding option_token_def by (cases name) auto
  then have "tok \<noteq> ''--'' \<and> CHR ''='' \<notin> set tok
    \<and> (take 2 tok = ''--'' \<longrightarrow> drop 2 tok = name)
    \<and> (take 2 tok \<noteq> ''--'' \<longrightarrow>
           tok \<noteq> [] \<and> hd tok = CHR ''-'' \<and> length tok \<noteq> 1 \<and> \<not> isdigit (tok ! 1)
           \<and> drop 1 tok = name \<and> (\<exists>c. name = [c]))"
  proof cases
    case long
    then show ?thesis by simp
  next
    case short
    then show ?thesis by simp
  qed
  then show "tok \<noteq> ''--''" and "CHR ''='' \<notin> set tok"
    and "take 2 tok = ''--'' \<Longrightarrow> drop 2 tok = name"
    and "take 2 tok \<noteq> ''--'' \<Longrightarrow>
           tok \<noteq> [] \<and> hd tok = CHR ''-'' \<and> length tok \<noteq> 1 \<and> \<not> isdigit (tok ! 1)
           \<and> drop 1 tok = name \<and> (\<exists>c. name = [c])"
    by blast+
qed

lemma handler_step:
  assumes nx: "argstream_has_next stream" "argstream_next stream = Some (tok, s1)"
    and tok: "option_token tok name"
  shows "ap_parse_loop strtod call parser stream is_first_arg =
           Option.bind
             (if take 2 tok = ''--'' then ap_handle_long_opt strtod parser name s1
              else ap_handle_short_chars strtod name name parser s1)
             (\<lambda>r. case r of
                Returns (parser, stream) \<Rightarrow> ap_parse_loop strtod call parser stream False
              | Fatal e \<Rightarrow> Some (Fatal e)
              | Exits t \<Rightarrow> Some (Exits t))"
proof (cases "take 2 tok = ''--''")
  case True
  note t = option_token_tests [OF tok]
  show ?thesis
    by (subst ap_parse_loop.simps) (simp add: nx t(1,2) t(3) [OF True] True)
next
  case False
  note t = option_token_tests [OF tok]
  from t(4) [OF False] have s: "tok \<noteq> []" "hd tok = CHR ''-''" "length tok \<noteq> Suc 0"
    "\<not> isdigit (tok ! Suc 0)" "drop (Suc 0) tok = name" by simp_all
  show ?thesis
    by (subst ap_parse_loop.simps) (simp add: nx t(1,2) s False ap_handle_short_opt_def)
qed

lemma flag_step:
  assumes ok: "stream_ok stream" and n: "next_args stream = tok # after"
    and tok: "option_token tok name"
    and m: "map_get (option_map (fields parser)) name = Some (Some ptr)"
    and d: "deref_opt parser ptr = Some opt" and ty: "type_opt opt = OPT_FLAG"
  shows "ap_parse_loop strtod call parser stream is_first_arg =
           ap_parse_loop strtod call
             (store_opt parser ptr (opt\<lparr>count_opt := count_opt opt + 1\<rparr>))
             (stream\<lparr>index_stream := index_stream stream + 1\<rparr>) False"
proof -
  note nx = next_args_Cons [OF ok n]
  note t = option_token_tests [OF tok]
  show ?thesis
  proof (cases "take 2 tok = ''--''")
    case True
    show ?thesis unfolding handler_step [OF nx(1,2) tok]
      by (simp add: True ap_handle_long_opt_def m d ty)
  next
    case False
    from t(4) [OF False] obtain c where c: "name = [c]" by blast
    show ?thesis unfolding handler_step [OF nx(1,2) tok]
      using m d ty by (simp add: False c)
  qed
qed

lemma value_step:
  assumes ok: "stream_ok stream" and n: "next_args stream = tok # s # after"
    and tok: "option_token tok name"
    and m: "map_get (option_map (fields parser)) name = Some (Some ptr)"
    and d: "deref_opt parser ptr = Some opt" and ty: "type_opt opt \<noteq> OPT_FLAG"
    and v: "option_try_set strtod opt s = Returns opt'"
  shows "ap_parse_loop strtod call parser stream is_first_arg =
           ap_parse_loop strtod call (store_opt parser ptr opt')
             (stream\<lparr>index_stream := index_stream stream + 2\<rparr>) False"
proof -
  note nx = next_args_Cons [OF ok n]
  note nx2 = next_args_Cons [OF nx(3,4)]
  note t = option_token_tests [OF tok]
  have two: "stream\<lparr>index_stream := index_stream stream + 1,
      index_stream := index_stream stream + 1 + 1\<rparr> = stream\<lparr>index_stream := index_stream stream + 2\<rparr>"
    by simp
  show ?thesis
  proof (cases "take 2 tok = ''--''")
    case True
    show ?thesis unfolding handler_step [OF nx(1,2) tok]
      using nx2(1,2) by (simp add: True ap_handle_long_opt_def m d ty v and_then_def)
        (simp add: add.commute)
  next
    case False
    from t(4) [OF False] obtain c where c: "name = [c]" by blast
    show ?thesis unfolding handler_step [OF nx(1,2) tok]
      using m d ty v nx2(1,2) by (simp add: False c and_then_def) (simp add: add.commute)
  qed
qed

lemma ap_get_opt_iff:
  "ap_get_opt p w = Some (Returns opt) \<longleftrightarrow>
     (\<exists>ptr. map_get (option_map (fields p)) w = Some (Some ptr) \<and> deref_opt p ptr = Some opt)"
  by (auto simp: ap_get_opt_def err_def bind_eq_Some_conv split: option.splits)

lemma deref_store_opt:
  assumes "deref_opt p ptr = Some opt"
  shows "deref_opt (store_opt p ptr opt') ptr = Some opt'"
    and "map_get (option_map (fields (store_opt p ptr opt'))) = map_get (option_map (fields p))"
    and "store_opt (store_opt p ptr opt') ptr opt'' = store_opt p ptr opt''"
    and "store_opt p ptr opt = p"
  using assms
  by (cases p; auto simp: deref_opt_def store_opt_def assign_def split: if_splits)+






lemma run_get_opt:
  assumes run: "ap_parse_loop strtod call parser stream is_first_arg = Some (Returns (parser', rest))"
    and g: "ap_get_opt parser w = Some (Returns opt)"
  shows "\<exists>opt'. ap_get_opt parser' w = Some (Returns opt') \<and> extends_opt opt opt'"
proof -
  from g obtain ptr where p: "map_get (option_map (fields parser)) w = Some (Some ptr)"
    "deref_opt parser ptr = Some opt"
    unfolding ap_get_opt_iff by blast
  note e = ap_parse_loop_extends [OF run]
  have ptr: "ptr < length (option_heap (fields parser))" "option_heap (fields parser) ! ptr = opt"
    using p(2) by (auto simp: deref_opt_def split: if_splits)
  have "deref_opt parser' ptr = Some (option_heap (fields parser') ! ptr)"
    using e ptr(1) by (simp add: options_extend_def deref_opt_def)
  moreover have "map_get (option_map (fields parser')) w = Some (Some ptr)"
    using e p(1) by (simp add: options_extend_def)
  moreover have "extends_opt opt (option_heap (fields parser') ! ptr)"
    using e ptr by (auto simp: options_extend_def)
  ultimately show ?thesis unfolding ap_get_opt_iff by blast
qed



lemma register_opt_correct:
  assumes inv: "map_inv (option_map (fields parser))"
  shows "\<exists>p. register_opt parser name opt = Some p
           \<and> map_inv (option_map (fields p))
           \<and> (\<forall>w\<in>set (strtok_all name).
                 map_get (option_map (fields p)) w = Some (Some (length (option_heap (fields parser)))))
           \<and> deref_opt p (length (option_heap (fields parser))) = Some opt
           \<and> (\<forall>w. w \<notin> set (strtok_all name) \<longrightarrow>
                 map_get (option_map (fields p)) w = map_get (option_map (fields parser)) w)
           \<and> (\<forall>ptr opt'. deref_opt parser ptr = Some opt' \<longrightarrow> deref_opt p ptr = Some opt')"
proof -
  let ?ptr = "length (option_heap (fields parser))"
  from map_set_splitkey_correct [OF inv, of name ?ptr] obtain m'
    where m': "map_set_splitkey (option_map (fields parser)) name ?ptr = Some m'" "map_inv m'"
      "\<forall>w. map_get m' w = Some (if w \<in> set (strtok_all name) then Some ?ptr
                                  else lookup (option_map (fields parser)) w)" by blast
  let ?p' = "assign (\<lambda>d. d\<lparr>option_heap := option_heap d @ [opt],
                              option_vec := vec_add (option_vec d) ?ptr,
                              option_map := m'\<rparr>) parser"
  have run: "register_opt parser name opt = Some ?p'"
    using m'(1) by (simp add: register_opt_def Let_def)
  have om: "option_map (fields ?p') = m'" by (simp add: assign_def)
  have 1: "map_inv (option_map (fields ?p'))" using m'(2) om by simp
  have 2: "\<forall>w\<in>set (strtok_all name). map_get (option_map (fields ?p')) w = Some (Some ?ptr)"
    using m'(3) om by simp
  have 3: "deref_opt ?p' ?ptr = Some opt" by (simp add: deref_opt_def assign_def)
  have 4: "\<forall>w. w \<notin> set (strtok_all name) \<longrightarrow>
      map_get (option_map (fields ?p')) w = map_get (option_map (fields parser)) w"
    using m'(3) om map_get_correct [OF inv] by simp
  have 5: "\<forall>ptr opt'. deref_opt parser ptr = Some opt' \<longrightarrow> deref_opt ?p' ptr = Some opt'"
    by (auto simp: deref_opt_def assign_def nth_append split: if_splits)
  show ?thesis using run 1 2 3 4 5 by blast
qed






lemma register_opt_aliases:
  assumes inv: "map_inv (option_map (fields parser))"
  shows "\<exists>p. register_opt parser name opt = Some p
           \<and> map_inv (option_map (fields p))
           \<and> (\<forall>w\<in>set (strtok_all name).
                 map_get (option_map (fields p)) w
                   = Some (Some (length (option_heap (fields parser))))
                 \<and> ap_get_opt p w = Some (Returns opt))
           \<and> (\<forall>w. w \<notin> set (strtok_all name) \<longrightarrow>
                 map_get (option_map (fields p)) w = map_get (option_map (fields parser)) w)
           \<and> (\<forall>w old. w \<notin> set (strtok_all name) \<and> ap_get_opt parser w = Some (Returns old) \<longrightarrow>
                 ap_get_opt p w = Some (Returns old))"
proof -
  from register_opt_correct [OF inv, of name opt] obtain p where
    p: "register_opt parser name opt = Some p" "map_inv (option_map (fields p))"
    "\<forall>w\<in>set (strtok_all name).
       map_get (option_map (fields p)) w = Some (Some (length (option_heap (fields parser))))"
    "deref_opt p (length (option_heap (fields parser))) = Some opt"
    "\<forall>w. w \<notin> set (strtok_all name) \<longrightarrow>
       map_get (option_map (fields p)) w = map_get (option_map (fields parser)) w"
    "\<forall>ptr opt'. deref_opt parser ptr = Some opt' \<longrightarrow> deref_opt p ptr = Some opt'"
    by blast
  have a: "\<forall>w\<in>set (strtok_all name).
      map_get (option_map (fields p)) w = Some (Some (length (option_heap (fields parser))))
      \<and> ap_get_opt p w = Some (Returns opt)"
    unfolding ap_get_opt_iff using p(3,4) by blast
  have b: "\<forall>w old. w \<notin> set (strtok_all name) \<and> ap_get_opt parser w = Some (Returns old) \<longrightarrow>
      ap_get_opt p w = Some (Returns old)"
    unfolding ap_get_opt_iff using p(5,6) by metis
  show ?thesis using p(1,2,5) a b by blast
qed

lemma same_binding_queries:
  assumes "map_get (option_map (fields q)) w1 = Some (Some ptr)"
    "map_get (option_map (fields q)) w2 = Some (Some ptr)"
  shows "ap_get_opt q w1 = ap_get_opt q w2 \<and> ap_count q w1 = ap_count q w2
         \<and> ap_found q w1 = ap_found q w2
         \<and> ap_str_value q w1 = ap_str_value q w2 \<and> ap_int_value q w1 = ap_int_value q w2
         \<and> ap_dbl_value q w1 = ap_dbl_value q w2
         \<and> ap_str_values q w1 = ap_str_values q w2 \<and> ap_int_values q w1 = ap_int_values q w2
         \<and> ap_dbl_values q w1 = ap_dbl_values q w2"
proof -
  have e: "ap_get_opt q w1 = ap_get_opt q w2" using assms by (simp add: ap_get_opt_def)
  show ?thesis
    by (simp add: e ap_count_def ap_found_def ap_str_value_def ap_int_value_def ap_dbl_value_def
        ap_str_values_def ap_int_values_def ap_dbl_values_def)
qed

lemma run_keeps_bindings:
  assumes "ap_parse_loop strtod call parser stream is_first_arg = Some (Returns (parser', rest))"
  shows "map_get (option_map (fields parser')) w = map_get (option_map (fields parser)) w"
  using ap_parse_loop_extends [OF assms] by (simp add: options_extend_def)

lemma flag_found_after:
  assumes run: "ap_parse_loop strtod call parser stream is_first_arg = Some (Returns (parser', rest))"
    and g: "ap_get_opt parser w = Some (Returns opt)" and c: "0 < count_opt opt"
  shows "ap_found parser' w = Some (Returns True)"
proof -
  from run_get_opt [OF run g] obtain opt' where
    o: "ap_get_opt parser' w = Some (Returns opt')" "extends_opt opt opt'" by blast
  have "0 < count_opt opt'" using o(2) c by (simp add: extends_opt_def)
  then show ?thesis using o(1) by (simp add: ap_found_def and_then_def)
qed

section \<open>Claims about the parser\<close>

text \<open>
  C1. Let the loop of a parser \<open>P\<close> be at its first argument, let that argument not
  start with a dash and be a key of the command map. Then the run of \<open>P\<close> is the run
  of the child parser on the same stream after that argument, followed by the
  callback of the child: \<open>P\<close> records the argument and the child as the matched
  command, and nothing else of \<open>P\<close> changes. When the call returns, the stream is
  exhausted (the child has consumed every remaining argument) and the positional
  arguments of \<open>P\<close> are what they were.
\<close>

theorem command_match_terminal:
  assumes nxt: "argstream_has_next stream" "argstream_next stream = Some (arg, stream')"
    and plain: "arg = [] \<or> hd arg \<noteq> CHR ''-''"
    and cmd: "map_get (command_map (fields parser)) arg = Some (Some cmd_ptr)"
    and child: "deref_cmd parser cmd_ptr = Some child"
  shows "ap_parse_stream strtod call parser stream =
           and_then (ap_parse_stream strtod call child stream') (\<lambda>(child, rest).
             and_then (ap_run_callback call arg child) (\<lambda>child.
               Some (Returns
                 (store_cmd
                    (assign (\<lambda>d. d\<lparr>cmd_name := Some arg, cmd_parser := Some cmd_ptr\<rparr>) parser)
                    cmd_ptr child,
                  rest))))
         \<and> (\<forall>parser' rest.
               ap_parse_stream strtod call parser stream = Some (Returns (parser', rest)) \<longrightarrow>
                 \<not> argstream_has_next rest
                 \<and> positional_args (fields parser') = positional_args (fields parser)
                 \<and> cmd_name (fields parser') = Some arg
                 \<and> cmd_parser (fields parser') = Some cmd_ptr
                 \<and> (\<exists>child'. ap_parse_stream strtod call child stream' = Some (Returns (child', rest))
                       \<and> ap_run_callback call arg child'
                           = Some (Returns (command_heap parser' ! cmd_ptr))))"
proof -
  note step = command_step [OF nxt plain cmd child, of strtod call]
  have ptr: "cmd_ptr < length (command_heap parser)"
    using child by (simp add: deref_cmd_def split: if_splits)
  have "\<not> argstream_has_next rest
        \<and> positional_args (fields parser') = positional_args (fields parser)
        \<and> cmd_name (fields parser') = Some arg
        \<and> cmd_parser (fields parser') = Some cmd_ptr
        \<and> (\<exists>child'. ap_parse_loop strtod call child stream' True = Some (Returns (child', rest))
              \<and> ap_run_callback call arg child' = Some (Returns (command_heap parser' ! cmd_ptr)))"
    if run: "ap_parse_loop strtod call parser stream True = Some (Returns (parser', rest))"
    for parser' rest
  proof -
    from run [unfolded step] obtain child' child'' where
      c: "ap_parse_loop strtod call child stream' True = Some (Returns (child', rest))"
        "ap_run_callback call arg child' = Some (Returns child'')"
        "parser' = store_cmd
            (assign (\<lambda>d. d\<lparr>cmd_name := Some arg, cmd_parser := Some cmd_ptr\<rparr>) parser)
            cmd_ptr child''"
      by (auto simp: and_then_Returns)
    have "\<not> argstream_has_next rest" using ap_parse_loop_exhausts [OF c(1)] .
    moreover have "command_heap parser' ! cmd_ptr = child''"
      using c(3) ptr by (simp add: store_cmd_def assign_def)
    ultimately show ?thesis using c by (simp add: store_cmd_def assign_def)
  qed
  then show ?thesis using step by (simp add: ap_parse_stream_def)
qed

text \<open>
  The arguments \<open>run --fast x\<close> on the parser with the command \<open>run\<close>: the child
  has the positional argument \<open>x\<close> and its flag \<open>fast\<close> is found, the parent has no
  positional argument.
\<close>

theorem command_match_terminal_witness:
  "argstream_has_next run_args
   \<and> argstream_next run_args = Some (''run'', run_args\<lparr>index_stream := 1\<rparr>)
   \<and> map_get (command_map (fields run_parser)) ''run'' = Some (Some 0)
   \<and> deref_cmd run_parser 0 = Some (command_heap run_parser ! 0)
   \<and> (\<exists>parser' rest.
         ap_parse_stream strtod_none call_nothing run_parser run_args = Some (Returns (parser', rest))
         \<and> \<not> argstream_has_next rest
         \<and> positional_args (fields parser') = positional_args (fields run_parser)
         \<and> entries_vec (positional_args (fields parser')) = []
         \<and> cmd_name (fields parser') = Some ''run''
         \<and> entries_vec (positional_args (fields (command_heap parser' ! 0))) = [''x'']
         \<and> ap_found (command_heap parser' ! 0) ''fast'' = Some (Returns True))"
proof -
  have h1: "argstream_has_next run_args" by code_simp
  have h2: "argstream_next run_args = Some (''run'', run_args\<lparr>index_stream := 1\<rparr>)"
    by code_simp
  have h3: "''run'' = [] \<or> hd ''run'' \<noteq> CHR ''-''" by simp
  have h4: "map_get (command_map (fields run_parser)) ''run'' = Some (Some 0)" by code_simp
  have h5: "deref_cmd run_parser 0 = Some (command_heap run_parser ! 0)" by code_simp
  note T = command_match_terminal [OF h1 h2 h3 h4 h5, of strtod_none call_nothing]
  have ev: "(case ap_parse_stream strtod_none call_nothing run_parser run_args of
               Some (Returns (p, rest)) \<Rightarrow>
                 entries_vec (positional_args (fields p)) = []
                 \<and> entries_vec (positional_args (fields (command_heap p ! 0))) = [''x'']
                 \<and> ap_found (command_heap p ! 0) ''fast'' = Some (Returns True)
             | _ \<Rightarrow> False)"
    by code_simp
  then obtain p rest where
    r: "ap_parse_stream strtod_none call_nothing run_parser run_args = Some (Returns (p, rest))"
      "entries_vec (positional_args (fields p)) = []"
      "entries_vec (positional_args (fields (command_heap p ! 0))) = [''x'']"
      "ap_found (command_heap p ! 0) ''fast'' = Some (Returns True)"
    by (auto split: option.splits outcome.splits)
  from T r(1) have "\<not> argstream_has_next rest
      \<and> positional_args (fields p) = positional_args (fields run_parser)
      \<and> cmd_name (fields p) = Some ''run''"
    by blast
  then show ?thesis using h1 h2 h4 h5 r by blast
qed



text \<open>
  C3. When the argument that the loop reads is a bare \<open>--\<close>, every remaining argument
  of the stream is appended, verbatim and in order, to the positional arguments of
  the parser, and the call returns with the stream exhausted: nothing else of the
  parser changes, and the result does not depend on the option map or the command
  map (no lookup takes place), whatever the remaining arguments look like.
\<close>

theorem separator_takes_rest:
  assumes ok: "stream_ok stream" and nxt: "argstream_has_next stream"
    and sep: "args stream ! nat (index_stream stream) = ''--''"
  shows "ap_parse_loop strtod call parser stream is_first_arg =
           Some (Returns
             (assign (\<lambda>d. d\<lparr>positional_args :=
                  foldl vec_add (positional_args d)
                    (drop (nat (index_stream stream) + 1) (args stream))\<rparr>) parser,
              stream\<lparr>index_stream := count_stream stream\<rparr>))
         \<and> entries_vec (foldl vec_add (positional_args (fields parser))
                (drop (nat (index_stream stream) + 1) (args stream)))
             = entries_vec (positional_args (fields parser))
                 @ drop (nat (index_stream stream) + 1) (args stream)"
proof -
  let ?s1 = "stream\<lparr>index_stream := index_stream stream + 1\<rparr>"
  note nx = stream_ok_next [OF ok nxt]
  have rng: "0 \<le> index_stream stream" "nat (index_stream stream) < length (args stream)"
    using nx by simp_all
  have n: "argstream_next stream = Some (''--'', ?s1)"
    using rng sep by (simp add: argstream_next_def)
  have ok1: "stream_ok ?s1" using nx by simp
  have idx: "nat (index_stream stream + 1) = nat (index_stream stream) + 1" using nx by simp
  have tr: "take_rest (positional_args (fields parser)) ?s1 =
      Some (foldl vec_add (positional_args (fields parser))
              (drop (nat (index_stream stream) + 1) (args stream)),
            stream\<lparr>index_stream := count_stream stream\<rparr>)"
    using take_rest_all [OF ok1, of "positional_args (fields parser)"] idx by simp
  have fin: "\<not> argstream_has_next (stream\<lparr>index_stream := count_stream stream\<rparr>)"
    by (simp add: argstream_has_next_def)
  have "ap_parse_loop strtod call parser stream is_first_arg =
          Some (Returns
             (assign (\<lambda>d. d\<lparr>positional_args :=
                  foldl vec_add (positional_args d)
                    (drop (nat (index_stream stream) + 1) (args stream))\<rparr>) parser,
              stream\<lparr>index_stream := count_stream stream\<rparr>))"
    by (subst ap_parse_loop.simps)
       (simp add: nxt n tr ap_parse_loop_done [OF fin] assign_def)
  then show ?thesis using foldl_vec_add by blast
qed

text \<open>The arguments \<open>-- --foo -b\<close> give the positional arguments \<open>--foo\<close> and \<open>-b\<close>.\<close>

theorem separator_takes_rest_witness:
  "stream_ok sep_args \<and> argstream_has_next sep_args
   \<and> args sep_args ! nat (index_stream sep_args) = ''--''
   \<and> (\<exists>p rest. ap_parse_loop strtod_none call_nothing ap_new sep_args True = Some (Returns (p, rest))
         \<and> entries_vec (positional_args (fields p)) = [''--foo'', ''-b'']
         \<and> count_vec (positional_args (fields p)) = 2
         \<and> \<not> argstream_has_next rest)"
proof -
  have h: "stream_ok sep_args" "argstream_has_next sep_args"
    "args sep_args ! nat (index_stream sep_args) = ''--''"
    by (simp_all add: stream_ok_def sep_args_def argstream_new_def argstream_has_next_def)
  note T = separator_takes_rest [OF h, of strtod_none call_nothing ap_new True]
  have d: "drop (nat (index_stream sep_args) + 1) (args sep_args) = [''--foo'', ''-b'']"
    by (simp add: sep_args_def argstream_new_def)
  have e: "entries_vec (positional_args (fields (ap_new :: unit ArgParser))) = []"
    "count_vec (positional_args (fields (ap_new :: unit ArgParser))) = 0"
    by (simp_all add: ap_new_def vec_new_def)
  have "entries_vec (foldl vec_add (positional_args (fields (ap_new :: unit ArgParser)))
          [''--foo'', ''-b'']) = [''--foo'', ''-b'']"
    "count_vec (foldl vec_add (positional_args (fields (ap_new :: unit ArgParser)))
          [''--foo'', ''-b'']) = 2"
    using foldl_vec_add [of "positional_args (fields (ap_new :: unit ArgParser))" "[''--foo'', ''-b'']"] e
    by simp_all
  then show ?thesis
    using h T unfolding d by (simp add: assign_def argstream_has_next_def)
qed

text \<open>
  C4. When the argument that the loop reads is a dash followed by a digit (so in
  particular a dash followed by digits only, such as \<open>-5\<close>), the iteration appends
  the argument verbatim to the positional arguments and goes on with the next
  argument: no option is looked up and the argument raises no error, whatever is
  registered.
\<close>

theorem negative_number_is_positional:
  assumes nxt: "argstream_has_next stream" "argstream_next stream = Some (arg, stream')"
    and form: "arg = CHR ''-'' # ds" "ds \<noteq> []" "isdigit (hd ds)"
  shows "ap_parse_loop strtod call parser stream is_first_arg =
           ap_parse_loop strtod call
             (assign (\<lambda>d. d\<lparr>positional_args := vec_add (positional_args d) arg\<rparr>) parser)
             stream' False
         \<and> entries_vec (vec_add (positional_args (fields parser)) arg)
             = entries_vec (positional_args (fields parser)) @ [arg]"
proof -
  obtain c cs where ds: "ds = c # cs" using form(2) by (cases ds) auto
  have d: "isdigit c" using form(3) ds by simp
  then have "c \<noteq> CHR ''-''" by (auto simp: isdigit_def)
  then have a: "arg \<noteq> ''--''" "take 2 arg \<noteq> ''--''" "arg \<noteq> []" "hd arg = CHR ''-''"
    "isdigit (arg ! Suc 0)"
    using form(1) ds d by simp_all
  have "ap_parse_loop strtod call parser stream is_first_arg =
           ap_parse_loop strtod call
             (assign (\<lambda>d. d\<lparr>positional_args := vec_add (positional_args d) arg\<rparr>) parser)
             stream' False"
    by (subst ap_parse_loop.simps) (simp add: nxt a)
  moreover have "entries_vec (vec_add (positional_args (fields parser)) arg)
             = entries_vec (positional_args (fields parser)) @ [arg]"
    by (simp add: vec_add_def Let_def)
  ultimately show ?thesis by blast
qed

text \<open>The argument \<open>-5\<close> on a parser without any option is a positional argument.\<close>

theorem negative_number_is_positional_witness:
  "argstream_has_next minus5_args
   \<and> argstream_next minus5_args = Some (''-5'', minus5_args\<lparr>index_stream := 1\<rparr>)
   \<and> isdigit (hd ''5'')
   \<and> ap_parse_loop strtod_none call_nothing ap_new minus5_args True
       = ap_parse_loop strtod_none call_nothing
           (assign (\<lambda>d. d\<lparr>positional_args := vec_add (positional_args d) ''-5''\<rparr>) ap_new)
           (minus5_args\<lparr>index_stream := 1\<rparr>) False
   \<and> map_option (map_outcome ap_args)
         (ap_parse_array strtod_none call_nothing ap_new 1 [''-5''])
       = Some (Returns (Some [''-5'']))"
proof -
  have h: "argstream_has_next minus5_args"
    "argstream_next minus5_args = Some (''-5'', minus5_args\<lparr>index_stream := 1\<rparr>)"
    "''-5'' = CHR ''-'' # ''5''" "''5'' \<noteq> []" "isdigit (hd ''5'')"
    by (simp_all add: minus5_args_def argstream_new_def argstream_has_next_def
        argstream_next_def isdigit_def)
  note T = negative_number_is_positional [OF h, of strtod_none call_nothing ap_new True]
  have "map_option (map_outcome ap_args)
         (ap_parse_array strtod_none call_nothing ap_new 1 [''-5''])
       = Some (Returns (Some [''-5'']))"
    by code_simp
  then show ?thesis using h T by blast
qed

text \<open>
  C5. One option object behind all the words of an alias string.

  \<^item> Registration: \<^verbatim>\<open>ap_flag\<close>, \<^verbatim>\<open>ap_str_opt\<close>, \<^verbatim>\<open>ap_int_opt\<close> and \<^verbatim>\<open>ap_dbl_opt\<close> bind every
    word of the alias string to the address of the one new object, and
    \<^verbatim>\<open>ap_get_opt\<close> returns that object under each of them; every other name keeps its
    binding and the object it had, so the aliases of the options registered before
    stay aliases.

  \<^item> Registration, then parsing: after \<^verbatim>\<open>ap_flag\<close> with an alias string, when the
    first argument is a spelling of one word \<open>w1\<close> of the string and the parse
    returns, \<^verbatim>\<open>ap_found\<close> is true for every word \<open>w2\<close> of the string and the counts
    through \<open>w1\<close> and \<open>w2\<close> are the same.

  \<^item> Agreement: in any state of a parser, two names bound to the same address give
    the same result for every query (\<^verbatim>\<open>ap_count\<close>, \<^verbatim>\<open>ap_found\<close>, the scalar and the list
    accessors); parsing does not change the bindings, so this holds after every
    parse as well.

  \<^item> Mutation: when the loop reads a spelling of the name \<open>w1\<close> of a flag, the run goes
    on from the state in which the count seen through every other name \<open>w2\<close> of the
    same object is one higher, and \<^verbatim>\<open>ap_found\<close> of \<open>w2\<close> is true whenever the parse
    returns; for a value-taking option the value set through \<open>w1\<close> is in the object
    that \<^verbatim>\<open>ap_get_opt\<close> returns for \<open>w2\<close>.
\<close>

theorem aliases_share_one_option:
  fixes parser :: "'d ArgParser"
  shows
    "(map_inv (option_map (fields parser)) \<longrightarrow>
        (\<forall>(registered, opt)\<in>{(ap_flag parser name, option_new_flag),
                              (ap_str_opt parser name sfb, option_new_str sfb),
                              (ap_int_opt parser name nfb, option_new_int nfb),
                              (ap_dbl_opt parser name dfb, option_new_double dfb)}.
           \<exists>p. registered = Some p
             \<and> map_inv (option_map (fields p))
             \<and> (\<forall>w\<in>set (strtok_all name).
                   map_get (option_map (fields p)) w
                     = Some (Some (length (option_heap (fields parser))))
                   \<and> ap_get_opt p w = Some (Returns opt))
             \<and> (\<forall>w. w \<notin> set (strtok_all name) \<longrightarrow>
                   map_get (option_map (fields p)) w = map_get (option_map (fields parser)) w)
             \<and> (\<forall>w old. w \<notin> set (strtok_all name)
                     \<and> ap_get_opt parser w = Some (Returns old) \<longrightarrow>
                   ap_get_opt p w = Some (Returns old))))
     \<and> (map_inv (option_map (fields parser)) \<and> ap_flag parser name = Some p
          \<and> w1 \<in> set (strtok_all name) \<and> w2 \<in> set (strtok_all name)
          \<and> option_token tok w1 \<and> stream_ok stream \<and> next_args stream = tok # after
          \<and> ap_parse_loop strtod call p stream is_first_arg = Some (Returns (parser', rest)) \<longrightarrow>
        ap_found parser' w2 = Some (Returns True)
        \<and> ap_count parser' w1 = ap_count parser' w2)
     \<and> (map_get (option_map (fields parser)) w1 = Some (Some ptr)
          \<and> map_get (option_map (fields parser)) w2 = Some (Some ptr) \<longrightarrow>
        (ap_get_opt parser w1 = ap_get_opt parser w2 \<and> ap_count parser w1 = ap_count parser w2
           \<and> ap_found parser w1 = ap_found parser w2
           \<and> ap_str_value parser w1 = ap_str_value parser w2
           \<and> ap_int_value parser w1 = ap_int_value parser w2
           \<and> ap_dbl_value parser w1 = ap_dbl_value parser w2
           \<and> ap_str_values parser w1 = ap_str_values parser w2
           \<and> ap_int_values parser w1 = ap_int_values parser w2
           \<and> ap_dbl_values parser w1 = ap_dbl_values parser w2)
      \<and> (ap_parse_loop strtod call parser stream is_first_arg = Some (Returns (parser', rest)) \<longrightarrow>
           map_get (option_map (fields parser')) w1 = Some (Some ptr)
           \<and> map_get (option_map (fields parser')) w2 = Some (Some ptr)
           \<and> ap_get_opt parser' w1 = ap_get_opt parser' w2
           \<and> ap_count parser' w1 = ap_count parser' w2
           \<and> ap_found parser' w1 = ap_found parser' w2
           \<and> ap_str_value parser' w1 = ap_str_value parser' w2
           \<and> ap_int_value parser' w1 = ap_int_value parser' w2
           \<and> ap_dbl_value parser' w1 = ap_dbl_value parser' w2
           \<and> ap_str_values parser' w1 = ap_str_values parser' w2
           \<and> ap_int_values parser' w1 = ap_int_values parser' w2
           \<and> ap_dbl_values parser' w1 = ap_dbl_values parser' w2)
      \<and> (stream_ok stream \<and> deref_opt parser ptr = Some opt \<and> option_token tok w1 \<longrightarrow>
           (type_opt opt = OPT_FLAG \<and> next_args stream = tok # after \<longrightarrow>
              ap_parse_loop strtod call parser stream is_first_arg
                = ap_parse_loop strtod call
                    (store_opt parser ptr (opt\<lparr>count_opt := count_opt opt + 1\<rparr>))
                    (stream\<lparr>index_stream := index_stream stream + 1\<rparr>) False
              \<and> ap_count (store_opt parser ptr (opt\<lparr>count_opt := count_opt opt + 1\<rparr>)) w2
                  = Some (Returns (count_opt opt + 1))
              \<and> (0 \<le> count_opt opt
                   \<and> ap_parse_loop strtod call parser stream is_first_arg
                       = Some (Returns (parser', rest)) \<longrightarrow>
                 ap_found parser' w2 = Some (Returns True)))
         \<and> (type_opt opt \<noteq> OPT_FLAG \<and> next_args stream = tok # s # after
              \<and> option_try_set strtod opt s = Returns opt' \<longrightarrow>
              ap_parse_loop strtod call parser stream is_first_arg
                = ap_parse_loop strtod call (store_opt parser ptr opt')
                    (stream\<lparr>index_stream := index_stream stream + 2\<rparr>) False
              \<and> ap_get_opt (store_opt parser ptr opt') w2 = Some (Returns opt'))))"
    (is "(_ \<longrightarrow> ?Reg) \<and> (?e \<longrightarrow> ?E)
         \<and> (?bound \<longrightarrow> ?G \<and> (?run \<longrightarrow> ?K) \<and> (?at \<longrightarrow> (?fl \<longrightarrow> ?F) \<and> (?vl \<longrightarrow> ?V)))")
proof -
  have Reg: ?Reg if inv: "map_inv (option_map (fields parser))"
    using register_opt_aliases [OF inv, of name option_new_flag]
      register_opt_aliases [OF inv, of name "option_new_str sfb"]
      register_opt_aliases [OF inv, of name "option_new_int nfb"]
      register_opt_aliases [OF inv, of name "option_new_double dfb"]
    by (simp add: ap_flag_def ap_str_opt_def ap_int_opt_def ap_dbl_opt_def)
  have E: ?E if e: ?e
  proof -
    let ?ptr = "length (option_heap (fields parser))"
    let ?new = "option_new_flag :: 'd Option"
    let ?q = "store_opt p ?ptr (?new\<lparr>count_opt := count_opt ?new + 1\<rparr>)"
    from e have inv: "map_inv (option_map (fields parser))"
      and reg: "register_opt parser name option_new_flag = Some p"
      and w: "w1 \<in> set (strtok_all name)" "w2 \<in> set (strtok_all name)"
      and h: "stream_ok stream" "next_args stream = tok # after" "option_token tok w1"
      and run: "ap_parse_loop strtod call p stream is_first_arg = Some (Returns (parser', rest))"
      by (simp_all add: ap_flag_def)
    from register_opt_correct [OF inv, of name option_new_flag] reg have
      p: "\<forall>w\<in>set (strtok_all name). map_get (option_map (fields p)) w = Some (Some ?ptr)"
      "deref_opt p ?ptr = Some option_new_flag"
      by auto
    have m: "map_get (option_map (fields p)) w1 = Some (Some ?ptr)"
      "map_get (option_map (fields p)) w2 = Some (Some ?ptr)"
      using p(1) w by simp_all
    have ty: "type_opt (option_new_flag :: 'd Option) = OPT_FLAG"
      and c: "count_opt (option_new_flag :: 'd Option) = 0"
      by (simp_all add: option_new_flag_def)
    note step = flag_step [OF h(1,2,3) m(1) p(2) ty, of strtod call is_first_arg]
    have g: "ap_get_opt ?q w2
        = Some (Returns (?new\<lparr>count_opt := count_opt ?new + 1\<rparr>))"
      unfolding ap_get_opt_iff using deref_store_opt(1,2) [OF p(2)] m(2) by simp
    have found: "ap_found parser' w2 = Some (Returns True)"
      using flag_found_after [OF run [unfolded step] g] c by simp
    have m': "map_get (option_map (fields parser')) w1 = Some (Some ?ptr)"
      "map_get (option_map (fields parser')) w2 = Some (Some ?ptr)"
      using run_keeps_bindings [OF run] m by simp_all
    show ?E using found same_binding_queries [OF m'] by simp
  qed
  have G: ?G if b: ?bound
    using same_binding_queries [of parser w1 ptr w2] b by simp
  have K: ?K if b: ?bound and run: ?run
  proof -
    have m: "map_get (option_map (fields parser')) w1 = Some (Some ptr)"
      "map_get (option_map (fields parser')) w2 = Some (Some ptr)"
      using run_keeps_bindings [OF run] b by simp_all
    show ?K using m same_binding_queries [OF m] by simp
  qed
  have F: ?F if b: ?bound and at: ?at and fl: ?fl
  proof -
    let ?p = "store_opt parser ptr (opt\<lparr>count_opt := count_opt opt + 1\<rparr>)"
    from b at fl have h: "stream_ok stream" "next_args stream = tok # after"
      "option_token tok w1" "map_get (option_map (fields parser)) w1 = Some (Some ptr)"
      "deref_opt parser ptr = Some opt" "type_opt opt = OPT_FLAG" by simp_all
    note step = flag_step [OF h, of strtod call is_first_arg]
    have g: "ap_get_opt ?p w2 = Some (Returns (opt\<lparr>count_opt := count_opt opt + 1\<rparr>))"
      unfolding ap_get_opt_iff using deref_store_opt(1,2) [OF h(5)] b by simp
    have c: "ap_count ?p w2 = Some (Returns (count_opt opt + 1))"
      using g by (simp add: ap_count_def and_then_def)
    have "ap_found parser' w2 = Some (Returns True)"
      if "0 \<le> count_opt opt"
        "ap_parse_loop strtod call parser stream is_first_arg = Some (Returns (parser', rest))"
      using flag_found_after [OF that(2) [unfolded step] g] that(1) by simp
    then show ?F using step c by blast
  qed
  have V: ?V if b: ?bound and at: ?at and vl: ?vl
  proof -
    from b at vl have h: "stream_ok stream" "next_args stream = tok # s # after"
      "option_token tok w1" "map_get (option_map (fields parser)) w1 = Some (Some ptr)"
      "deref_opt parser ptr = Some opt" "type_opt opt \<noteq> OPT_FLAG"
      "option_try_set strtod opt s = Returns opt'" by simp_all
    note step = value_step [OF h, of call is_first_arg]
    have g: "ap_get_opt (store_opt parser ptr opt') w2 = Some (Returns opt')"
      unfolding ap_get_opt_iff using deref_store_opt(1,2) [OF h(5)] b by simp
    show ?V using step g by blast
  qed
  have "?G \<and> (?run \<longrightarrow> ?K) \<and> (?at \<longrightarrow> (?fl \<longrightarrow> ?F) \<and> (?vl \<longrightarrow> ?V))" if b: ?bound
  proof -
    have 1: "?run \<longrightarrow> ?K" using K [OF b] by (rule impI)
    have 2: "?at \<longrightarrow> (?fl \<longrightarrow> ?F) \<and> (?vl \<longrightarrow> ?V)"
    proof (rule impI, rule conjI)
      assume at: ?at
      show "?fl \<longrightarrow> ?F" using F [OF b at] by (rule impI)
      show "?vl \<longrightarrow> ?V" using V [OF b at] by (rule impI)
    qed
    show ?thesis by (rule conjI [OF G [OF b] conjI [OF 1 2]])
  qed
  then have "?bound \<longrightarrow> ?G \<and> (?run \<longrightarrow> ?K) \<and> (?at \<longrightarrow> (?fl \<longrightarrow> ?F) \<and> (?vl \<longrightarrow> ?V))"
    by (rule impI)
  moreover have "map_inv (option_map (fields parser)) \<longrightarrow> ?Reg" using Reg by (rule impI)
  moreover have "?e \<longrightarrow> ?E" using E by (rule impI)
  ultimately show ?thesis by (intro conjI)
qed

text \<open>
  The flag registered as \<open>v verbose\<close>: both words are bound to the address 0, and after
  the argument \<open>-v\<close> the query for \<open>verbose\<close> finds the flag. The three options of
  \<^verbatim>\<open>dmp.c\<close> keep their aliases: \<open>line\<close> and \<open>l\<close>, \<open>num\<close> and \<open>n\<close>, \<open>offset\<close> and \<open>o\<close>.
\<close>

theorem aliases_share_one_option_witness:
  "(\<exists>p. ap_flag (ap_new :: unit ArgParser) ''v verbose'' = Some p
        \<and> map_get (option_map (fields p)) ''v'' = Some (Some 0)
        \<and> map_get (option_map (fields p)) ''verbose'' = Some (Some 0)
        \<and> ap_get_opt p ''verbose'' = Some (Returns option_new_flag)
        \<and> (\<exists>q. ap_parse_array strtod_none call_nothing p 1 [''-v''] = Some (Returns q)
              \<and> ap_found q ''verbose'' = Some (Returns True)
              \<and> ap_count q ''v'' = ap_count q ''verbose''
              \<and> ap_found q ''v'' = ap_found q ''verbose''))
   \<and> map_get (option_map (fields hexdump_parser)) ''line'' = Some (Some 0)
   \<and> map_get (option_map (fields hexdump_parser)) ''l'' = Some (Some 0)
   \<and> map_get (option_map (fields hexdump_parser)) ''num'' = Some (Some 1)
   \<and> map_get (option_map (fields hexdump_parser)) ''n'' = Some (Some 1)
   \<and> map_get (option_map (fields hexdump_parser)) ''offset'' = Some (Some 2)
   \<and> map_get (option_map (fields hexdump_parser)) ''o'' = Some (Some 2)"
proof -
  let ?stream = "argstream_new 1 [''-v'']"
  have inv: "map_inv (option_map (fields (ap_new :: unit ArgParser)))"
    by (simp add: ap_new_def map_inv_new)
  have w: "strtok_all ''v verbose'' = [''v'', ''verbose'']" by code_simp
  have len: "length (option_heap (fields (ap_new :: unit ArgParser))) = 0"
    by (simp add: ap_new_def)
  note Reg = aliases_share_one_option
    [where parser = "ap_new :: unit ArgParser" and name = "''v verbose''" and sfb = None
      and nfb = 0 and dfb = "()",
      THEN conjunct1, THEN mp, OF inv, THEN bspec,
      of "(ap_flag (ap_new :: unit ArgParser) ''v verbose'', option_new_flag)"]
  have "\<exists>p. ap_flag (ap_new :: unit ArgParser) ''v verbose'' = Some p
        \<and> (\<forall>w\<in>set (strtok_all ''v verbose'').
              map_get (option_map (fields p)) w
                = Some (Some (length (option_heap (fields (ap_new :: unit ArgParser)))))
              \<and> ap_get_opt p w = Some (Returns option_new_flag))"
    using Reg by auto
  then obtain p where p: "ap_flag (ap_new :: unit ArgParser) ''v verbose'' = Some p"
    "map_get (option_map (fields p)) ''v'' = Some (Some 0)"
    "map_get (option_map (fields p)) ''verbose'' = Some (Some 0)"
    "ap_get_opt p ''verbose'' = Some (Returns option_new_flag)"
    unfolding w len by auto
  have vp: "verbose_parser = p" using p(1) by (simp add: verbose_parser_def)
  have tok: "option_token ''-v'' ''v''" by code_simp
  have "(case ap_parse_loop strtod_none call_nothing verbose_parser ?stream True of
           Some (Returns (q, r)) \<Rightarrow> True | _ \<Rightarrow> False)"
    by code_simp
  then obtain q r where
    run: "ap_parse_loop strtod_none call_nothing p ?stream True = Some (Returns (q, r))"
    unfolding vp by (auto split: option.splits outcome.splits)
  have e: "map_inv (option_map (fields (ap_new :: unit ArgParser)))
      \<and> ap_flag (ap_new :: unit ArgParser) ''v verbose'' = Some p
      \<and> ''v'' \<in> set (strtok_all ''v verbose'') \<and> ''verbose'' \<in> set (strtok_all ''v verbose'')
      \<and> option_token ''-v'' ''v'' \<and> stream_ok ?stream \<and> next_args ?stream = ''-v'' # []
      \<and> ap_parse_loop strtod_none call_nothing p ?stream True = Some (Returns (q, r))"
    using inv p(1) tok run unfolding w
    by (simp add: stream_ok_def next_args_def argstream_new_def)
  note E = aliases_share_one_option
    [where parser = "ap_new :: unit ArgParser" and name = "''v verbose''" and p = p
      and ?w1.0 = "''v''" and ?w2.0 = "''verbose''" and tok = "''-v''" and stream = ?stream
      and after = "[]" and parser' = q and rest = r and strtod = strtod_none
      and call = call_nothing and is_first_arg = True,
      THEN conjunct2, THEN conjunct1, THEN mp, OF e]
  have b: "map_get (option_map (fields p)) ''v'' = Some (Some 0)
      \<and> map_get (option_map (fields p)) ''verbose'' = Some (Some 0)"
    using p(2,3) by simp
  note K = aliases_share_one_option
    [where parser = p and ?w1.0 = "''v''" and ?w2.0 = "''verbose''" and ptr = 0
      and stream = ?stream and parser' = q and rest = r and strtod = strtod_none
      and call = call_nothing and is_first_arg = True,
      THEN conjunct2, THEN conjunct2, THEN mp, OF b, THEN conjunct2, THEN conjunct1, THEN mp,
      OF run]
  have agree: "ap_found q ''v'' = ap_found q ''verbose''" using K by simp
  have pa: "ap_parse_array strtod_none call_nothing p 1 [''-v''] = Some (Returns q)"
    using run by (simp add: ap_parse_array_def ap_parse_stream_def and_then_def)
  have hex: "map_get (option_map (fields hexdump_parser)) ''line'' = Some (Some 0)"
    "map_get (option_map (fields hexdump_parser)) ''l'' = Some (Some 0)"
    "map_get (option_map (fields hexdump_parser)) ''num'' = Some (Some 1)"
    "map_get (option_map (fields hexdump_parser)) ''n'' = Some (Some 1)"
    "map_get (option_map (fields hexdump_parser)) ''offset'' = Some (Some 2)"
    "map_get (option_map (fields hexdump_parser)) ''o'' = Some (Some 2)"
    by code_simp+
  show ?thesis using p pa E agree hex by blast
qed

text \<open>
  C8. For a name bound to an option object with an integer fallback, the integer
  value is the fallback when the occurrence count is zero; the count query returns
  the counter of the object and the presence query tells whether it is positive, so
  with a count of zero the option is not found.
\<close>

theorem fallback_when_not_found:
  assumes reg: "ap_get_opt parser name = Some (Returns opt)"
    and fb: "fallback opt = Int_val fb"
  shows "(ap_count parser name = Some (Returns 0) \<longrightarrow>
            ap_int_value parser name = Some (Returns fb)
            \<and> ap_found parser name = Some (Returns False))
         \<and> ap_count parser name = Some (Returns (count_opt opt))
         \<and> ap_found parser name = Some (Returns (0 < count_opt opt))"
  using reg fb
  by (simp add: ap_count_def ap_found_def ap_int_value_def and_then_def option_get_int_def)

text \<open>
  The option \<open>num\<close> of the hexdump utility before any argument is parsed: count 0,
  value -1, not found.
\<close>

theorem fallback_when_not_found_witness:
  "ap_get_opt hexdump_parser ''num'' = Some (Returns (option_new_int (- 1)))
   \<and> fallback (option_new_int (- 1) :: unit Option) = Int_val (- 1)
   \<and> ap_count hexdump_parser ''num'' = Some (Returns 0)
   \<and> ap_int_value hexdump_parser ''num'' = Some (Returns (- 1))
   \<and> ap_found hexdump_parser ''num'' = Some (Returns False)"
proof -
  have h1: "ap_get_opt hexdump_parser ''num'' = Some (Returns (option_new_int (- 1)))"
    by code_simp
  have h2: "fallback (option_new_int (- 1) :: unit Option) = Int_val (- 1)"
    by (simp add: option_new_int_def)
  have c: "count_opt (option_new_int (- 1) :: unit Option) = 0"
    by (simp add: option_new_int_def)
  show ?thesis using fallback_when_not_found [OF h1 h2] h1 h2 c by simp
qed

text \<open>
  C9. When the argument that the loop reads starts with a single dash, continues with
  \<open>name\<close> (empty, or starting with neither a dash nor a digit), then the first \<open>=\<close>
  and \<open>value\<close>, the iteration is \<^verbatim>\<open>ap_handle_equals_opt\<close> with the prefix \<open>-\<close>. That
  function, for either prefix, looks \<open>name\<close> up: a miss or a flag is the error "is not
  a recognised option name", an empty \<open>value\<close> is the error "missing value", and
  otherwise \<open>value\<close> is set on the option.
\<close>

theorem short_equals_form:
  assumes nxt: "argstream_has_next stream"
      "argstream_next stream = Some (CHR ''-'' # name @ CHR ''='' # value, stream')"
    and single: "name = [] \<or> hd name \<noteq> CHR ''-''"
    and nondigit: "name = [] \<or> \<not> isdigit (hd name)"
    and name: "CHR ''='' \<notin> set name"
  shows "ap_parse_loop strtod call parser stream is_first_arg =
           and_then (ap_handle_equals_opt strtod parser ''-'' (name @ CHR ''='' # value))
             (\<lambda>parser. ap_parse_loop strtod call parser stream' False)
         \<and> (\<forall>prefix. ap_handle_equals_opt strtod parser prefix (name @ CHR ''='' # value) =
               Option.bind (map_get (option_map (fields parser)) name) (\<lambda>found.
                 case found of
                   None \<Rightarrow> Some (Fatal (prefix @ name @ '' is not a recognised option name''))
                 | Some ptr \<Rightarrow>
                     Option.bind (deref_opt parser ptr) (\<lambda>option.
                       if type_opt option = OPT_FLAG
                       then Some (Fatal (prefix @ name @ '' is not a recognised option name''))
                       else if value = []
                       then Some (Fatal (''missing value for the '' @ prefix @ name @ '' option''))
                       else and_then (Some (option_try_set strtod option value)) (\<lambda>option.
                              Some (Returns (store_opt parser ptr option))))))"
proof -
  let ?arg = "CHR ''-'' # name @ CHR ''='' # value"
  have a: "?arg \<noteq> ''--''" "take 2 ?arg \<noteq> ''--''" "length ?arg \<noteq> Suc 0"
    "\<not> isdigit (?arg ! Suc 0)"
    using single nondigit by (cases name; simp add: isdigit_def)+
  have step: "ap_parse_loop strtod call parser stream is_first_arg =
           and_then (ap_handle_equals_opt strtod parser ''-'' (drop 1 ?arg))
             (\<lambda>parser. ap_parse_loop strtod call parser stream' False)"
    by (rule short_equals_step [OF nxt a(1,2) _ _ a(3,4)]) simp_all
  show ?thesis
  proof (intro conjI allI)
    show "ap_parse_loop strtod call parser stream is_first_arg =
           and_then (ap_handle_equals_opt strtod parser ''-'' (name @ CHR ''='' # value))
             (\<lambda>parser. ap_parse_loop strtod call parser stream' False)"
      using step by simp
  qed (rule equals_opt_unfold [OF name])
qed

text \<open>
  The integer option \<open>n\<close>: \<open>-n=12\<close> sets it, \<open>-n=\<close> misses its value and \<open>-m=1\<close> is
  not recognised.
\<close>

theorem short_equals_form_witness:
  "argstream_has_next n_equals_args
   \<and> argstream_next n_equals_args = Some (CHR ''-'' # ''n'' @ CHR ''='' # ''12'',
        n_equals_args\<lparr>index_stream := 1\<rparr>)
   \<and> ap_parse_loop strtod_none call_nothing int_n_parser n_equals_args True
       = and_then (ap_handle_equals_opt strtod_none int_n_parser ''-'' (''n'' @ CHR ''='' # ''12''))
           (\<lambda>parser. ap_parse_loop strtod_none call_nothing parser
              (n_equals_args\<lparr>index_stream := 1\<rparr>) False)
   \<and> (\<exists>p. ap_parse_array strtod_none call_nothing int_n_parser 1 [''-n=12''] = Some (Returns p)
         \<and> ap_int_value p ''n'' = Some (Returns 12))
   \<and> ap_parse_array strtod_none call_nothing int_n_parser 1 [''-n='']
       = Some (Fatal ''missing value for the -n option'')
   \<and> ap_parse_array strtod_none call_nothing int_n_parser 1 [''-m=1'']
       = Some (Fatal ''-m is not a recognised option name'')"
proof -
  have h: "argstream_has_next n_equals_args"
    "argstream_next n_equals_args = Some (CHR ''-'' # ''n'' @ CHR ''='' # ''12'',
        n_equals_args\<lparr>index_stream := 1\<rparr>)"
    "''n'' = [] \<or> hd ''n'' \<noteq> CHR ''-''" "''n'' = [] \<or> \<not> isdigit (hd ''n'')"
    "CHR ''='' \<notin> set ''n''"
    by (simp_all add: n_equals_args_def argstream_new_def argstream_has_next_def
        argstream_next_def isdigit_def)
  note T = short_equals_form [OF h, of strtod_none call_nothing int_n_parser True]
  have "(case ap_parse_array strtod_none call_nothing int_n_parser 1 [''-n=12''] of
           Some (Returns p) \<Rightarrow> ap_int_value p ''n'' = Some (Returns 12) | _ \<Rightarrow> False)"
    by code_simp
  then have ex: "\<exists>p. ap_parse_array strtod_none call_nothing int_n_parser 1 [''-n=12''] = Some (Returns p)
         \<and> ap_int_value p ''n'' = Some (Returns 12)"
    by (auto split: option.splits outcome.splits)
  have e1: "ap_parse_array strtod_none call_nothing int_n_parser 1 [''-n='']
       = Some (Fatal ''missing value for the -n option'')"
    by code_simp
  have e2: "ap_parse_array strtod_none call_nothing int_n_parser 1 [''-m=1'']
       = Some (Fatal ''-m is not a recognised option name'')"
    by code_simp
  show ?thesis using h(1,2) T ex e1 e2 by blast
qed

text \<open>
  C10. An equals-form argument whose name is bound to a flag (or to nothing) is the
  fatal error "is not a recognised option name", whatever follows the \<open>=\<close>: the
  test comes before the test for an empty value, so a flag with an empty value is
  reported as unrecognised.
\<close>

theorem equals_never_sets_flag:
  assumes name: "CHR ''='' \<notin> set name"
    and flag: "map_get (option_map (fields parser)) name = Some None
       \<or> (\<exists>ptr option. map_get (option_map (fields parser)) name = Some (Some ptr)
             \<and> deref_opt parser ptr = Some option \<and> type_opt option = OPT_FLAG)"
    and nxt: "argstream_has_next stream"
      "argstream_next stream = Some (''--'' @ name @ CHR ''='' # value, stream')"
  shows "ap_handle_equals_opt strtod parser prefix (name @ CHR ''='' # value)
           = Some (Fatal (prefix @ name @ '' is not a recognised option name''))
         \<and> ap_parse_loop strtod call parser stream is_first_arg
           = Some (Fatal (''--'' @ name @ '' is not a recognised option name''))"
proof -
  have h: "ap_handle_equals_opt strtod parser prefix (name @ CHR ''='' # value)
           = Some (Fatal (prefix @ name @ '' is not a recognised option name''))" for prefix
    using flag by (auto simp: equals_opt_unfold [OF name])
  let ?arg = "''--'' @ name @ CHR ''='' # value"
  have a: "?arg \<noteq> ''--''" "take 2 ?arg = ''--''" "CHR ''='' \<in> set ?arg"
    "drop 2 ?arg = name @ CHR ''='' # value"
    by simp_all
  have "ap_parse_loop strtod call parser stream is_first_arg
           = Some (Fatal (''--'' @ name @ '' is not a recognised option name''))"
    using h [of "''--''"] by (subst ap_parse_loop.simps) (simp add: nxt and_then_def)
  then show ?thesis using h by simp
qed

text \<open>The flag \<open>verbose\<close> with \<open>--verbose=\<close>, and its alias with \<open>-v=1\<close>.\<close>

theorem equals_never_sets_flag_witness:
  "map_get (option_map (fields verbose_parser)) ''verbose'' = Some (Some 0)
   \<and> deref_opt verbose_parser 0 = Some option_new_flag
   \<and> argstream_has_next verbose_equals_args
   \<and> argstream_next verbose_equals_args
       = Some (''--'' @ ''verbose'' @ CHR ''='' # [], verbose_equals_args\<lparr>index_stream := 1\<rparr>)
   \<and> ap_handle_equals_opt strtod_none verbose_parser ''--'' (''verbose'' @ CHR ''='' # [])
       = Some (Fatal (''--'' @ ''verbose'' @ '' is not a recognised option name''))
   \<and> ap_parse_loop strtod_none call_nothing verbose_parser verbose_equals_args True
       = Some (Fatal (''--'' @ ''verbose'' @ '' is not a recognised option name''))
   \<and> ap_parse_array strtod_none call_nothing verbose_parser 1 [''-v=1'']
       = Some (Fatal ''-v is not a recognised option name'')"
proof -
  have g: "map_get (option_map (fields verbose_parser)) ''verbose'' = Some (Some 0)"
    "deref_opt verbose_parser 0 = Some option_new_flag"
    by code_simp+
  have f: "type_opt (option_new_flag :: unit Option) = OPT_FLAG" by (simp add: option_new_flag_def)
  have h: "CHR ''='' \<notin> set ''verbose''"
    "map_get (option_map (fields verbose_parser)) ''verbose'' = Some None
       \<or> (\<exists>ptr option. map_get (option_map (fields verbose_parser)) ''verbose'' = Some (Some ptr)
             \<and> deref_opt verbose_parser ptr = Some option \<and> type_opt option = OPT_FLAG)"
    "argstream_has_next verbose_equals_args"
    "argstream_next verbose_equals_args
       = Some (''--'' @ ''verbose'' @ CHR ''='' # [], verbose_equals_args\<lparr>index_stream := 1\<rparr>)"
    using g f
    by (simp_all add: verbose_equals_args_def argstream_new_def argstream_has_next_def
        argstream_next_def)
  note T = equals_never_sets_flag [OF h, of strtod_none "''--''" call_nothing True]
  have e: "ap_parse_array strtod_none call_nothing verbose_parser 1 [''-v=1'']
       = Some (Fatal ''-v is not a recognised option name'')"
    by code_simp
  show ?thesis using g h(3,4) T e by blast
qed

end
